theory Spec2Isabelle
  imports Main
begin

section \<open>EditorX: the text buffer, cursor, history and search of the editor component\<close>

text \<open>
  The development embeds the \<^verbatim>\<open>Editor\<close> component of
  \<^verbatim>\<open>src/assets/funcional1.jsx\<close>: its React state becomes a record, each handler a
  function from state to state, each effect a function of the state before and after a render.
  A JavaScript string is a list of code units; the theory uses \<^typ>\<open>char\<close> for a code unit
  and so covers text of the code units 0 to 255 (ASCII and the Latin-1 supplement), with the
  case folding of the regular-expression engine on all of them. An exception thrown by a
  handler is the left injection of a sum.
\<close>

subsection \<open>JavaScript values and primitives\<close>

datatype js_error = TypeError

abbreviation LF :: char where "LF \<equiv> CHR 0x0A"
abbreviation CR :: char where "CR \<equiv> CHR 0x0D"
abbreviation backslash :: char where "backslash \<equiv> CHR 0x5C"
abbreviation dollar :: char where "dollar \<equiv> CHR 0x24"

text \<open>\<^verbatim>\<open>xs[i]\<close> for a number \<open>i\<close>: \<^verbatim>\<open>undefined\<close> (here \<open>None\<close>) out of range.\<close>

definition js_index :: "'a list \<Rightarrow> int \<Rightarrow> 'a option" where
  "js_index xs i = (if 0 \<le> i \<and> i < int (length xs) then Some (xs ! nat i) else None)"

text \<open>\<^verbatim>\<open>xs.slice(0, k)\<close>: a negative \<open>k\<close> counts from the end.\<close>

definition js_slice0 :: "'a list \<Rightarrow> int \<Rightarrow> 'a list" where
  "js_slice0 xs k = (if k < 0 then take (nat (int (length xs) + k)) xs else take (nat k) xs)"

text \<open>\<^verbatim>\<open>content.split('\n')\<close>: never the empty array.\<close>

fun split_newline :: "string \<Rightarrow> string list" where
  "split_newline [] = [[]]"
| "split_newline (c # cs) =
     (if c = LF then [] # split_newline cs
      else (case split_newline cs of [] \<Rightarrow> [[c]] | l # ls \<Rightarrow> (c # l) # ls))"

text \<open>\<^verbatim>\<open>lines.join('\n')\<close>.\<close>

fun join_newline :: "string list \<Rightarrow> string" where
  "join_newline [] = []"
| "join_newline [l] = l"
| "join_newline (l # m # ls) = l @ LF # join_newline (m # ls)"

subsection \<open>The state of the component\<close>

record open_file =
  name :: string
  content :: string

record cursor =
  line :: nat
  char :: nat

datatype notice = Saved | NoMatchesInfo | ReplacedSuccess nat | SearchError

record key_event =
  key :: string
  ctrlKey :: bool
  metaKey :: bool

record editor_state =
  openedFiles :: "open_file list"
  currentFileIndex :: nat
  searchQuery :: string
  replaceQuery :: string
  cursorPosition :: cursor
  history :: "string list"
  historyIndex :: int
  notification :: "notice option"

text \<open>The values of \<^verbatim>\<open>useState\<close> at the first render.\<close>

definition initial_state :: editor_state where
  "initial_state =
     \<lparr>openedFiles = [], currentFileIndex = 0, searchQuery = [], replaceQuery = [],
      cursorPosition = \<lparr>line = 0, char = 0\<rparr>, history = [], historyIndex = - 1,
      notification = None\<rparr>"

text \<open>\<^verbatim>\<open>const currentFile = openedFiles[currentFileIndex]\<close>.\<close>

definition currentFile :: "editor_state \<Rightarrow> open_file option" where
  "currentFile s = js_index (openedFiles s) (int (currentFileIndex s))"

subsection \<open>History: commit, reset, undo and redo\<close>

text \<open>
  \<^verbatim>\<open>updateContentAndHistory(newContent, addToHistory)\<close>. The comparison
  \<^verbatim>\<open>history[historyIndex] !== newContent\<close> is true when the entry is \<^verbatim>\<open>undefined\<close>.
\<close>

definition updateContentAndHistory :: "string \<Rightarrow> bool \<Rightarrow> editor_state \<Rightarrow> editor_state" where
  "updateContentAndHistory newContent addToHistory s =
     (case currentFile s of
        None \<Rightarrow> s
      | Some f \<Rightarrow>
          let s1 = s\<lparr>openedFiles := (openedFiles s)[currentFileIndex s := f\<lparr>content := newContent\<rparr>]\<rparr>
          in if addToHistory \<and> js_index (history s) (historyIndex s) \<noteq> Some newContent
             then let newHistory = js_slice0 (history s) (historyIndex s + 1) @ [newContent]
                  in s1\<lparr>history := newHistory, historyIndex := int (length newHistory) - 1\<rparr>
             else s1)"

text \<open>
  The effect with dependencies \<^verbatim>\<open>[currentFileIndex, currentFile?.name]\<close>: it runs after a
  render in which one of the two differs from the render before, and resets the history.
\<close>

definition historyDeps :: "editor_state \<Rightarrow> nat \<times> string option" where
  "historyDeps s = (currentFileIndex s, map_option name (currentFile s))"

definition resetHistory :: "editor_state \<Rightarrow> editor_state" where
  "resetHistory s =
     (case currentFile s of
        Some f \<Rightarrow> s\<lparr>history := [content f], historyIndex := 0\<rparr>
      | None \<Rightarrow> s\<lparr>history := [], historyIndex := - 1\<rparr>)"

definition historyEffect :: "editor_state \<Rightarrow> editor_state \<Rightarrow> editor_state" where
  "historyEffect prev s = (if historyDeps s \<noteq> historyDeps prev then resetHistory s else s)"

subsection \<open>The keyboard handler\<close>

text \<open>
  The \<^verbatim>\<open>switch (e.key)\<close> of \<^verbatim>\<open>handleKeyDown\<close> on the local variables
  \<^verbatim>\<open>lines\<close>, \<^verbatim>\<open>line\<close> (here \<open>ln\<close>) and \<^verbatim>\<open>char\<close> (here \<open>ch\<close>); the result carries \<^verbatim>\<open>contentChanged\<close>.
  Reading a property of \<^verbatim>\<open>lines[line]\<close> throws when the line does not exist;
  \<^verbatim>\<open>lines[line - 1] += lines[line]\<close> appends the text \<^verbatim>\<open>undefined\<close> then.
\<close>

definition js_at :: "string list \<Rightarrow> nat \<Rightarrow> string option" where
  "js_at lines i = js_index lines (int i)"

definition keySwitch ::
  "string list \<Rightarrow> nat \<Rightarrow> nat \<Rightarrow> key_event \<Rightarrow> js_error + (string list \<times> nat \<times> nat \<times> bool)" where
  "keySwitch lines ln ch e =
     (if key e = ''ArrowUp'' then
        (if ln > 0 then
           (case js_at lines (ln - 1) of
              None \<Rightarrow> Inl TypeError
            | Some l \<Rightarrow> Inr (lines, ln - 1, min ch (length l), False))
         else Inr (lines, ln, ch, False))
      else if key e = ''ArrowDown'' then
        (if int ln < int (length lines) - 1 then
           (case js_at lines (ln + 1) of
              None \<Rightarrow> Inl TypeError
            | Some l \<Rightarrow> Inr (lines, ln + 1, min ch (length l), False))
         else Inr (lines, ln, ch, False))
      else if key e = ''ArrowLeft'' then
        (if ch > 0 then Inr (lines, ln, ch - 1, False)
         else if ln > 0 then
           (case js_at lines (ln - 1) of
              None \<Rightarrow> Inl TypeError
            | Some l \<Rightarrow> Inr (lines, ln - 1, length l, False))
         else Inr (lines, ln, ch, False))
      else if key e = ''ArrowRight'' then
        (case js_at lines ln of
           None \<Rightarrow> Inl TypeError
         | Some l \<Rightarrow>
             if ch < length l then Inr (lines, ln, ch + 1, False)
             else if int ln < int (length lines) - 1 then Inr (lines, ln + 1, 0, False)
             else Inr (lines, ln, ch, False))
      else if key e = ''Home'' then Inr (lines, ln, 0, False)
      else if key e = ''End'' then
        (case js_at lines ln of
           None \<Rightarrow> Inl TypeError
         | Some l \<Rightarrow> Inr (lines, ln, length l, False))
      else if key e = ''Backspace'' then
        (if ch > 0 then
           (case js_at lines ln of
              None \<Rightarrow> Inl TypeError
            | Some l \<Rightarrow> Inr (lines[ln := take (ch - 1) l @ drop ch l], ln, ch - 1, True))
         else if ln > 0 then
           (case js_at lines (ln - 1) of
              None \<Rightarrow> Inl TypeError
            | Some p \<Rightarrow>
                let joined = p @ (case js_at lines ln of None \<Rightarrow> ''undefined'' | Some l \<Rightarrow> l);
                    lines1 = lines[ln - 1 := joined]
                in Inr (take ln lines1 @ drop (Suc ln) lines1, ln - 1, length p, True))
         else Inr (lines, ln, ch, True))
      else if key e = ''Enter'' then
        (case js_at lines ln of
           None \<Rightarrow> Inl TypeError
         | Some l \<Rightarrow>
             let lines1 = lines[ln := take ch l]
             in Inr (take (ln + 1) lines1 @ drop ch l # drop (ln + 1) lines1, ln + 1, 0, True))
      else if length (key e) = 1 \<and> \<not> ctrlKey e \<and> \<not> metaKey e then
        (case js_at lines ln of
           None \<Rightarrow> Inl TypeError
         | Some l \<Rightarrow> Inr (lines[ln := take ch l @ key e @ drop ch l], ln, ch + 1, True))
      else Inr (lines, ln, ch, False))"

text \<open>
  \<^verbatim>\<open>handleKeyDown\<close>. The accelerator for \<open>h\<close> only suppresses the browser's default and
  falls through to the switch, where a key pressed with Ctrl or Cmd changes nothing. An undo or
  redo whose history entry is \<^verbatim>\<open>undefined\<close> stores that as the content, and the next
  render throws on \<^verbatim>\<open>currentFile.content.split\<close>.
\<close>

definition handleKeyDown :: "editor_state \<Rightarrow> key_event \<Rightarrow> js_error + editor_state" where
  "handleKeyDown s e =
     (case currentFile s of
        None \<Rightarrow> Inr s
      | Some f \<Rightarrow>
          if (ctrlKey e \<or> metaKey e) \<and> key e = ''s'' then Inr (s\<lparr>notification := Some Saved\<rparr>)
          else if (ctrlKey e \<or> metaKey e) \<and> key e = ''z'' then
            (if historyIndex s > 0 then
               (let newIndex = historyIndex s - 1
                in case js_index (history s) newIndex of
                     None \<Rightarrow> Inl TypeError
                   | Some c \<Rightarrow> Inr (updateContentAndHistory c False (s\<lparr>historyIndex := newIndex\<rparr>)))
             else Inr s)
          else if (ctrlKey e \<or> metaKey e) \<and> key e = ''y'' then
            (if historyIndex s < int (length (history s)) - 1 then
               (let newIndex = historyIndex s + 1
                in case js_index (history s) newIndex of
                     None \<Rightarrow> Inl TypeError
                   | Some c \<Rightarrow> Inr (updateContentAndHistory c False (s\<lparr>historyIndex := newIndex\<rparr>)))
             else Inr s)
          else
            (case keySwitch (split_newline (content f)) (line (cursorPosition s))
                    (char (cursorPosition s)) e of
               Inl err \<Rightarrow> Inl err
             | Inr (lines, line', char', contentChanged) \<Rightarrow>
                 Inr ((if contentChanged then updateContentAndHistory (join_newline lines) True s
                       else s)\<lparr>cursorPosition := \<lparr>line = line', char = char'\<rparr>\<rparr>)))"

text \<open>A key press as React processes it: the handler, then the effects of the render.\<close>

definition keyDown :: "editor_state \<Rightarrow> key_event \<Rightarrow> js_error + editor_state" where
  "keyDown s e = (case handleKeyDown s e of Inl err \<Rightarrow> Inl err | Inr s' \<Rightarrow> Inr (historyEffect s s'))"

fun keysDown :: "editor_state \<Rightarrow> key_event list \<Rightarrow> js_error + editor_state" where
  "keysDown s [] = Inr s"
| "keysDown s (e # es) = (case keyDown s e of Inl err \<Rightarrow> Inl err | Inr s' \<Rightarrow> keysDown s' es)"

definition plainKey :: "string \<Rightarrow> key_event" where
  "plainKey k = \<lparr>key = k, ctrlKey = False, metaKey = False\<rparr>"

definition is_undo :: "key_event \<Rightarrow> bool" where
  "is_undo e \<longleftrightarrow> (ctrlKey e \<or> metaKey e) \<and> key e = ''z''"

definition is_redo :: "key_event \<Rightarrow> bool" where
  "is_redo e \<longleftrightarrow> (ctrlKey e \<or> metaKey e) \<and> key e = ''y''"

subsection \<open>Opening, switching and closing documents\<close>

text \<open>
  The \<^verbatim>\<open>reader.onload\<close> callback of \<^verbatim>\<open>handleDrop\<close> for the file at position
  \<^verbatim>\<open>index\<close> of \<^verbatim>\<open>droppedFiles\<close>; \<^verbatim>\<open>firstNewFileIndex\<close> is the number of open
  files when the drop happened.
\<close>

definition readerOnload :: "nat \<Rightarrow> nat \<Rightarrow> nat \<Rightarrow> open_file \<Rightarrow> editor_state \<Rightarrow> editor_state" where
  "readerOnload firstNewFileIndex index droppedCount newFile s =
     (let s1 = s\<lparr>openedFiles := openedFiles s @ [newFile]\<rparr>
      in if int index = int droppedCount - 1
         then s1\<lparr>currentFileIndex := firstNewFileIndex + index\<rparr> else s1)"

text \<open>\<^verbatim>\<open>handleClose(indexToClose)\<close>; \<^verbatim>\<open>Math.max(0, indexToClose - 1)\<close> is the
  truncated subtraction of \<^typ>\<open>nat\<close>.\<close>

definition handleClose :: "nat \<Rightarrow> editor_state \<Rightarrow> editor_state" where
  "handleClose indexToClose s =
     (let newFiles = map snd (filter (\<lambda>(i, _). i \<noteq> indexToClose) (enumerate 0 (openedFiles s)));
          s1 = s\<lparr>openedFiles := newFiles\<rparr>
      in if length newFiles = 0 then s1\<lparr>currentFileIndex := 0\<rparr>
         else if currentFileIndex s = indexToClose
           then s1\<lparr>currentFileIndex := indexToClose - 1\<rparr>
         else if currentFileIndex s > indexToClose
           then s1\<lparr>currentFileIndex := currentFileIndex s - 1\<rparr>
         else s1)"

text \<open>A click on a tab or on an entry of the explorer: \<^verbatim>\<open>setCurrentFileIndex(index)\<close>.\<close>

definition setCurrentFileIndex :: "nat \<Rightarrow> editor_state \<Rightarrow> editor_state" where
  "setCurrentFileIndex i s = s\<lparr>currentFileIndex := i\<rparr>"

text \<open>The three ways in which the open documents change, with the effects of the render.\<close>

definition fileLoaded :: "nat \<Rightarrow> nat \<Rightarrow> nat \<Rightarrow> open_file \<Rightarrow> editor_state \<Rightarrow> editor_state" where
  "fileLoaded firstNewFileIndex index droppedCount newFile s =
     historyEffect s (readerOnload firstNewFileIndex index droppedCount newFile s)"

definition tabClick :: "nat \<Rightarrow> editor_state \<Rightarrow> editor_state" where
  "tabClick i s = historyEffect s (setCurrentFileIndex i s)"

definition closeTab :: "nat \<Rightarrow> editor_state \<Rightarrow> editor_state" where
  "closeTab i s = historyEffect s (handleClose i s)"

text \<open>Loading one document into the fresh component, with the effects of that render.\<close>

definition loadDocument :: "open_file \<Rightarrow> editor_state" where
  "loadDocument d = historyEffect initial_state (readerOnload 0 0 1 d initial_state)"

subsection \<open>Regular expressions as the editor builds them\<close>

text \<open>
  \<^verbatim>\<open>escapeRegExp\<close>: every character of the class \<^verbatim>\<open>[.*+?^${}()|[\]\\]\<close> is replaced
  by a backslash and itself (\<^verbatim>\<open>'\\$&'\<close>).
\<close>

definition syntaxCharacter :: "char \<Rightarrow> bool" where
  "syntaxCharacter c \<longleftrightarrow> c \<in> set ''.*+?^${}()|[]'' \<or> c = backslash"

definition escapeRegExp :: "string \<Rightarrow> string" where
  "escapeRegExp string = concat (map (\<lambda>c. if syntaxCharacter c then [backslash, c] else [c]) string)"

text \<open>
  \<^verbatim>\<open>new RegExp(source, 'gi')\<close> on the fragment of pattern sources that matters here: a
  character that is no syntax character stands for itself, a backslash followed by a syntax
  character stands for that character, the dot stands for any character but a line terminator,
  and a backslash at the end of the source is a \<^verbatim>\<open>SyntaxError\<close>. Every other source is
  outside the fragment. The editor only ever compiles the result of \<^verbatim>\<open>escapeRegExp\<close>,
  which lies inside the fragment (lemma \<open>compile_escapeRegExp\<close>).
\<close>

datatype atom = Lit char | AnyChar

datatype compile_error = SyntaxError | OutsideFragment

fun compile :: "string \<Rightarrow> compile_error + atom list" where
  "compile [] = Inr []"
| "compile [c] =
     (if c = backslash then Inl SyntaxError
      else if c = CHR ''.'' then Inr [AnyChar]
      else if syntaxCharacter c then Inl OutsideFragment
      else Inr [Lit c])"
| "compile (c # d # ds) =
     (if c = backslash then
        (if syntaxCharacter d then map_sum id ((#) (Lit d)) (compile ds) else Inl OutsideFragment)
      else if c = CHR ''.'' then map_sum id ((#) AnyChar) (compile (d # ds))
      else if syntaxCharacter c then Inl OutsideFragment
      else map_sum id ((#) (Lit c)) (compile (d # ds)))"

text \<open>
  The case folding of the flag \<^verbatim>\<open>i\<close> (\<^verbatim>\<open>Canonicalize\<close> without the flag
  \<^verbatim>\<open>u\<close>) on the code units 0 to 255: a code unit becomes its upper-case form when that
  is one code unit. So \<open>a\<close>..\<open>z\<close> become \<open>A\<close>..\<open>Z\<close>, and the letters U+00E0 to U+00FE,
  but for the division sign U+00F7, become U+00C0 to U+00DE. The sharp s U+00DF has an upper
  case of two code units and stays; the micro sign U+00B5 and the y with diaeresis U+00FF fold
  to code units above 255 that no code unit up to 255 shares, so they stand for themselves
  here. Every other code unit is its own upper case.
\<close>

definition lower_letters :: string where
  "lower_letters =
     ''abcdefghijklmnopqrstuvwxyz'' @
       [CHR 0xE0, CHR 0xE1, CHR 0xE2, CHR 0xE3, CHR 0xE4, CHR 0xE5, CHR 0xE6, CHR 0xE7,
        CHR 0xE8, CHR 0xE9, CHR 0xEA, CHR 0xEB, CHR 0xEC, CHR 0xED, CHR 0xEE, CHR 0xEF,
        CHR 0xF0, CHR 0xF1, CHR 0xF2, CHR 0xF3, CHR 0xF4, CHR 0xF5, CHR 0xF6, CHR 0xF8,
        CHR 0xF9, CHR 0xFA, CHR 0xFB, CHR 0xFC, CHR 0xFD, CHR 0xFE]"

definition upper_letters :: string where
  "upper_letters =
     ''ABCDEFGHIJKLMNOPQRSTUVWXYZ'' @
       [CHR 0xC0, CHR 0xC1, CHR 0xC2, CHR 0xC3, CHR 0xC4, CHR 0xC5, CHR 0xC6, CHR 0xC7,
        CHR 0xC8, CHR 0xC9, CHR 0xCA, CHR 0xCB, CHR 0xCC, CHR 0xCD, CHR 0xCE, CHR 0xCF,
        CHR 0xD0, CHR 0xD1, CHR 0xD2, CHR 0xD3, CHR 0xD4, CHR 0xD5, CHR 0xD6, CHR 0xD8,
        CHR 0xD9, CHR 0xDA, CHR 0xDB, CHR 0xDC, CHR 0xDD, CHR 0xDE]"

definition canonicalize :: "char \<Rightarrow> char" where
  "canonicalize c =
     (case map_of (zip lower_letters upper_letters) c of
        None \<Rightarrow> c
      | Some u \<Rightarrow> u)"

fun atom_matches :: "atom \<Rightarrow> char \<Rightarrow> bool" where
  "atom_matches (Lit c) d \<longleftrightarrow> canonicalize c = canonicalize d"
| "atom_matches AnyChar d \<longleftrightarrow> d \<noteq> LF \<and> d \<noteq> CR"

text \<open>Does the pattern match at the start of the string?\<close>

fun match_here :: "atom list \<Rightarrow> string \<Rightarrow> bool" where
  "match_here [] str \<longleftrightarrow> True"
| "match_here (a # as) [] \<longleftrightarrow> False"
| "match_here (a # as) (d # ds) \<longleftrightarrow> atom_matches a d \<and> match_here as ds"

text \<open>The distance to the leftmost position at which the pattern matches.\<close>

fun first_match :: "atom list \<Rightarrow> string \<Rightarrow> nat option" where
  "first_match rx [] = (if match_here rx [] then Some 0 else None)"
| "first_match rx (d # ds) =
     (if match_here rx (d # ds) then Some 0 else map_option Suc (first_match rx ds))"

text \<open>
  \<^verbatim>\<open>regex.exec(str)\<close> with the flag \<^verbatim>\<open>g\<close>, as a function of \<^verbatim>\<open>lastIndex\<close>: the
  result is \<^verbatim>\<open>match.index\<close> with the new \<^verbatim>\<open>lastIndex\<close> (the end of the match), or
  \<open>None\<close> for \<^verbatim>\<open>null\<close>, which resets \<^verbatim>\<open>lastIndex\<close> to 0.
\<close>

definition regexp_exec :: "atom list \<Rightarrow> string \<Rightarrow> nat \<Rightarrow> (nat \<times> nat) option" where
  "regexp_exec rx str lastIndex =
     (if lastIndex > length str then None
      else map_option (\<lambda>k. (lastIndex + k, lastIndex + k + length rx))
             (first_match rx (drop lastIndex str)))"

subsection \<open>The search effect\<close>

record span =
  span_line :: nat
  span_start :: nat
  span_end :: nat

text \<open>
  The \<^verbatim>\<open>while\<close> loop over one line. \<^verbatim>\<open>match[0].length\<close> is the distance from
  \<^verbatim>\<open>match.index\<close> to the new \<^verbatim>\<open>lastIndex\<close>. The loop ends on \<^verbatim>\<open>null\<close>, which
  leaves \<^verbatim>\<open>lastIndex\<close> at 0 for the next line.
\<close>

function line_matches :: "atom list \<Rightarrow> string \<Rightarrow> nat \<Rightarrow> nat \<Rightarrow> span list" where
  "line_matches rx ln lineIndex lastIndex =
     (case regexp_exec rx ln lastIndex of
        None \<Rightarrow> []
      | Some (idx, e) \<Rightarrow>
          if e - idx = 0 then line_matches rx ln lineIndex (e + 1)
          else \<lparr>span_line = lineIndex, span_start = idx, span_end = idx + (e - idx)\<rparr>
                 # line_matches rx ln lineIndex e)"
  by pat_completeness auto
termination
  by (relation "measure (\<lambda>(rx, ln, lineIndex, lastIndex). Suc (length ln) - lastIndex)")
     (auto simp: regexp_exec_def neq_Nil_conv split: if_splits)

text \<open>
  The body of the \<^verbatim>\<open>try\<close> block for a pattern source, with its \<^verbatim>\<open>catch\<close>, and the
  effect itself, whose result is stored by \<^verbatim>\<open>setSearchResults\<close>. A source outside
  the fragment is given the result of the \<^verbatim>\<open>catch\<close> too; no property below speaks
  about such a source, and the effect never builds one.
\<close>

definition searchWith :: "string \<Rightarrow> string \<Rightarrow> span list" where
  "searchWith source text =
     (case compile source of
        Inl err \<Rightarrow> []
      | Inr regex \<Rightarrow>
          concat (map (\<lambda>(lineIndex, ln). line_matches regex ln lineIndex 0)
                    (enumerate 0 (split_newline text))))"

definition searchEffect :: "string \<Rightarrow> open_file option \<Rightarrow> span list" where
  "searchEffect query cf =
     (case cf of
        None \<Rightarrow> []
      | Some f \<Rightarrow> if query = [] then [] else searchWith (escapeRegExp query) (content f))"

subsection \<open>Replace all\<close>

text \<open>
  \<^verbatim>\<open>str.match(regex)\<close> with the flag \<^verbatim>\<open>g\<close>: all matches from \<^verbatim>\<open>lastIndex\<close> on, an
  empty match advancing \<^verbatim>\<open>lastIndex\<close> by one; the empty list stands for \<^verbatim>\<open>null\<close>.
\<close>

function match_global :: "atom list \<Rightarrow> string \<Rightarrow> nat \<Rightarrow> (nat \<times> nat) list" where
  "match_global rx str lastIndex =
     (case regexp_exec rx str lastIndex of
        None \<Rightarrow> []
      | Some (idx, e) \<Rightarrow> (idx, e) # match_global rx str (if e - idx = 0 then e + 1 else e))"
  by pat_completeness auto
termination
  by (relation "measure (\<lambda>(rx, str, lastIndex). Suc (length str) - lastIndex)")
     (auto simp: regexp_exec_def neq_Nil_conv split: if_splits)

text \<open>
  \<^verbatim>\<open>GetSubstitution\<close> for a pattern without capture groups: in the replacement text
  \<^verbatim>\<open>$$\<close> is a dollar sign, \<^verbatim>\<open>$&\<close> the match, \<^verbatim>\<open>$`\<close> the text before it and
  \<^verbatim>\<open>$'\<close> the text after it; every other character stands for itself.
\<close>

fun GetSubstitution :: "string \<Rightarrow> string \<Rightarrow> string \<Rightarrow> string \<Rightarrow> string" where
  "GetSubstitution matched preceding following [] = []"
| "GetSubstitution matched preceding following [c] = [c]"
| "GetSubstitution matched preceding following (c # d # ds) =
     (if c = dollar \<and> d = dollar then dollar # GetSubstitution matched preceding following ds
      else if c = dollar \<and> d = CHR ''&'' then matched @ GetSubstitution matched preceding following ds
      else if c = dollar \<and> d = CHR 0x60 then preceding @ GetSubstitution matched preceding following ds
      else if c = dollar \<and> d = CHR 0x27 then following @ GetSubstitution matched preceding following ds
      else c # GetSubstitution matched preceding following (d # ds))"

text \<open>\<^verbatim>\<open>str.replace(regex, replaceValue)\<close> with the flag \<^verbatim>\<open>g\<close>.\<close>

fun replace_results :: "string \<Rightarrow> string \<Rightarrow> nat \<Rightarrow> (nat \<times> nat) list \<Rightarrow> string" where
  "replace_results str replaceValue nextSourcePosition [] = drop nextSourcePosition str"
| "replace_results str replaceValue nextSourcePosition ((position, e) # results) =
     (if position \<ge> nextSourcePosition then
        take (position - nextSourcePosition) (drop nextSourcePosition str)
          @ GetSubstitution (take (e - position) (drop position str)) (take position str)
              (drop e str) replaceValue
          @ replace_results str replaceValue e results
      else replace_results str replaceValue nextSourcePosition results)"

definition js_replace :: "atom list \<Rightarrow> string \<Rightarrow> string \<Rightarrow> string" where
  "js_replace regex str replaceValue = replace_results str replaceValue 0 (match_global regex str 0)"

text \<open>\<^verbatim>\<open>handleReplaceAll\<close>.\<close>

definition handleReplaceAll :: "editor_state \<Rightarrow> editor_state" where
  "handleReplaceAll s =
     (case currentFile s of
        None \<Rightarrow> s
      | Some f \<Rightarrow>
          if searchQuery s = [] then s
          else
            (case compile (escapeRegExp (searchQuery s)) of
               Inl err \<Rightarrow> s\<lparr>notification := Some SearchError\<rparr>
             | Inr regex \<Rightarrow>
                 let originalContent = content f;
                     matches = match_global regex originalContent 0
                 in if matches = [] then s\<lparr>notification := Some NoMatchesInfo\<rparr>
                    else
                      let newContent = js_replace regex originalContent (replaceQuery s)
                      in if newContent \<noteq> originalContent
                         then (updateContentAndHistory newContent True s)
                                \<lparr>notification := Some (ReplacedSuccess (length matches))\<rparr>
                         else s))"

text \<open>A click on the replace-all button, with the effects of the render.\<close>

definition replaceAllClick :: "editor_state \<Rightarrow> editor_state" where
  "replaceAllClick s = historyEffect s (handleReplaceAll s)"

subsection \<open>The handlers of \<^verbatim>\<open>src/App.jsx\<close>\<close>

text \<open>
  \<^verbatim>\<open>src/App.jsx\<close> holds an earlier \<^verbatim>\<open>Editor\<close> without replace-all and without the
  effect that resets the history. Its \<^verbatim>\<open>switch\<close> has the same cases for the named keys;
  its \<^verbatim>\<open>default\<close> branch inserts every key of length one, whatever the modifiers. Its
  \<^verbatim>\<open>updateContentAndHistory\<close> has no guard for a missing file, and is only called by
  \<^verbatim>\<open>handleKeyDown\<close> behind \<^verbatim>\<open>if (!currentFile) return\<close>.
\<close>

definition keySwitch_App ::
  "string list \<Rightarrow> nat \<Rightarrow> nat \<Rightarrow> key_event \<Rightarrow> js_error + (string list \<times> nat \<times> nat \<times> bool)" where
  "keySwitch_App lines ln ch e =
     (if key e \<in> set [''ArrowUp'', ''ArrowDown'', ''ArrowLeft'', ''ArrowRight'', ''Home'', ''End'',
                       ''Backspace'', ''Enter'']
      then keySwitch lines ln ch e
      else if length (key e) = 1 then
        (case js_at lines ln of
           None \<Rightarrow> Inl TypeError
         | Some l \<Rightarrow> Inr (lines[ln := take ch l @ key e @ drop ch l], ln, ch + 1, True))
      else Inr (lines, ln, ch, False))"

definition handleKeyDown_App :: "editor_state \<Rightarrow> key_event \<Rightarrow> js_error + editor_state" where
  "handleKeyDown_App s e =
     (case currentFile s of
        None \<Rightarrow> Inr s
      | Some f \<Rightarrow>
          if (ctrlKey e \<or> metaKey e) \<and> key e = ''s'' then Inr (s\<lparr>notification := Some Saved\<rparr>)
          else if (ctrlKey e \<or> metaKey e) \<and> key e = ''z'' then
            (if historyIndex s > 0 then
               (let newIndex = historyIndex s - 1
                in case js_index (history s) newIndex of
                     None \<Rightarrow> Inl TypeError
                   | Some c \<Rightarrow> Inr (updateContentAndHistory c False (s\<lparr>historyIndex := newIndex\<rparr>)))
             else Inr s)
          else if (ctrlKey e \<or> metaKey e) \<and> key e = ''y'' then
            (if historyIndex s < int (length (history s)) - 1 then
               (let newIndex = historyIndex s + 1
                in case js_index (history s) newIndex of
                     None \<Rightarrow> Inl TypeError
                   | Some c \<Rightarrow> Inr (updateContentAndHistory c False (s\<lparr>historyIndex := newIndex\<rparr>)))
             else Inr s)
          else
            (case keySwitch_App (split_newline (content f)) (line (cursorPosition s))
                    (char (cursorPosition s)) e of
               Inl err \<Rightarrow> Inl err
             | Inr (lines, line', char', contentChanged) \<Rightarrow>
                 Inr ((if contentChanged then updateContentAndHistory (join_newline lines) True s
                       else s)\<lparr>cursorPosition := \<lparr>line = line', char = char'\<rparr>\<rparr>)))"

fun keysDown_App :: "editor_state \<Rightarrow> key_event list \<Rightarrow> js_error + editor_state" where
  "keysDown_App s [] = Inr s"
| "keysDown_App s (e # es) =
     (case handleKeyDown_App s e of Inl err \<Rightarrow> Inl err | Inr s' \<Rightarrow> keysDown_App s' es)"

text \<open>
  The \<^verbatim>\<open>reader.onload\<close> callback of its \<^verbatim>\<open>handleDrop\<close>; \<open>openedCount\<close> is
  \<^verbatim>\<open>openedFiles.length\<close> as the callback closed over it.
\<close>

definition readerOnload_App :: "nat \<Rightarrow> open_file \<Rightarrow> editor_state \<Rightarrow> editor_state" where
  "readerOnload_App openedCount newFile s =
     s\<lparr>openedFiles := openedFiles s @ [newFile], currentFileIndex := openedCount,
       history := [content newFile], historyIndex := 0\<rparr>"

definition loadDocument_App :: "open_file \<Rightarrow> editor_state" where
  "loadDocument_App d = readerOnload_App 0 d initial_state"

subsection \<open>The vocabulary of the specification\<close>

text \<open>The cursor invariant: the line exists and the column is at most its length.\<close>

definition cursor_in_range :: "string list \<Rightarrow> cursor \<Rightarrow> bool" where
  "cursor_in_range lines p \<longleftrightarrow> line p < length lines \<and> char p \<le> length (lines ! line p)"

definition cursor_ok :: "editor_state \<Rightarrow> bool" where
  "cursor_ok s =
     (case currentFile s of
        None \<Rightarrow> False
      | Some f \<Rightarrow> cursor_in_range (split_newline (content f)) (cursorPosition s))"

text \<open>A list of lines as \<^verbatim>\<open>split('\n')\<close> gives it: not empty, no line feed inside a line.\<close>

definition lines_ok :: "string list \<Rightarrow> bool" where
  "lines_ok lines \<longleftrightarrow> lines \<noteq> [] \<and> (\<forall>l \<in> set lines. LF \<notin> set l)"

text \<open>The history invariant: the index points into the history.\<close>

definition history_ok :: "editor_state \<Rightarrow> bool" where
  "history_ok s \<longleftrightarrow> 0 \<le> historyIndex s \<and> historyIndex s < int (length (history s))"

text \<open>The motions of the cursor as the specification words them.\<close>

datatype direction = MoveUp | MoveDown | MoveLeft | MoveRight | MoveHome | MoveEnd

fun key_of :: "direction \<Rightarrow> string" where
  "key_of MoveUp = ''ArrowUp''"
| "key_of MoveDown = ''ArrowDown''"
| "key_of MoveLeft = ''ArrowLeft''"
| "key_of MoveRight = ''ArrowRight''"
| "key_of MoveHome = ''Home''"
| "key_of MoveEnd = ''End''"

fun spec_move :: "cursor \<Rightarrow> direction \<Rightarrow> string list \<Rightarrow> cursor" where
  "spec_move p MoveUp lines =
     (if 0 < line p
      then \<lparr>line = line p - 1, char = min (char p) (length (lines ! (line p - 1)))\<rparr> else p)"
| "spec_move p MoveDown lines =
     (if line p + 1 < length lines
      then \<lparr>line = line p + 1, char = min (char p) (length (lines ! (line p + 1)))\<rparr> else p)"
| "spec_move p MoveLeft lines =
     (if 0 < char p then \<lparr>line = line p, char = char p - 1\<rparr>
      else if 0 < line p then \<lparr>line = line p - 1, char = length (lines ! (line p - 1))\<rparr>
      else p)"
| "spec_move p MoveRight lines =
     (if char p < length (lines ! line p) then \<lparr>line = line p, char = char p + 1\<rparr>
      else if line p + 1 < length lines then \<lparr>line = line p + 1, char = 0\<rparr>
      else p)"
| "spec_move p MoveHome lines = \<lparr>line = line p, char = 0\<rparr>"
| "spec_move p MoveEnd lines = \<lparr>line = line p, char = length (lines ! line p)\<rparr>"

text \<open>
  Literal, case-insensitive search as the specification words it: the query occurs at the
  start of a text when the text begins with the query up to the case of letters; the
  occurrences of a query are found from left to right and do not overlap.
\<close>

definition ci_prefix :: "string \<Rightarrow> string \<Rightarrow> bool" where
  "ci_prefix q str \<longleftrightarrow>
     length q \<le> length str \<and> map canonicalize (take (length q) str) = map canonicalize q"

function literal_scan :: "string \<Rightarrow> string \<Rightarrow> nat list" where
  "literal_scan q str =
     (if q = [] \<or> length str < length q then []
      else if ci_prefix q str
        then 0 # map (\<lambda>i. length q + i) (literal_scan q (drop (length q) str))
      else map Suc (literal_scan q (tl str)))"
  by pat_completeness auto
termination
  by (relation "measure (\<lambda>(q, str). length str)") (auto simp: neq_Nil_conv)

function literal_replace :: "string \<Rightarrow> string \<Rightarrow> string \<Rightarrow> string" where
  "literal_replace q r str =
     (if q = [] \<or> length str < length q then str
      else if ci_prefix q str then r @ literal_replace q r (drop (length q) str)
      else hd str # literal_replace q r (tl str))"
  by pat_completeness auto
termination
  by (relation "measure (\<lambda>(q, r, str). length str)") (auto simp: neq_Nil_conv)

text \<open>
  A replacement text holds a substitution pattern when some dollar sign in it is followed by
  a dollar sign, an ampersand, a backtick or an apostrophe.
\<close>

fun dollar_pattern :: "string \<Rightarrow> bool" where
  "dollar_pattern [] \<longleftrightarrow> False"
| "dollar_pattern [c] \<longleftrightarrow> False"
| "dollar_pattern (c # d # ds) \<longleftrightarrow>
     c = dollar \<and> d \<in> set [dollar, CHR ''&'', CHR 0x60, CHR 0x27] \<or> dollar_pattern (d # ds)"

definition spec_find :: "string \<Rightarrow> string list \<Rightarrow> span list" where
  "spec_find q lines =
     concat (map (\<lambda>(i, ln). map (\<lambda>k. \<lparr>span_line = i, span_start = k, span_end = k + length q\<rparr>)
                               (literal_scan q ln))
               (enumerate 0 lines))"

text \<open>The order of spans by line and position, without overlap.\<close>

definition span_before :: "span \<Rightarrow> span \<Rightarrow> bool" where
  "span_before a b \<longleftrightarrow>
     span_line a < span_line b \<or> (span_line a = span_line b \<and> span_end a \<le> span_start b)"

subsection \<open>States and keys used in examples\<close>

text \<open>An editor with one open document, its cursor and its history.\<close>

definition doc_state :: "string \<Rightarrow> cursor \<Rightarrow> string list \<Rightarrow> int \<Rightarrow> editor_state" where
  "doc_state c p h i =
     \<lparr>openedFiles = [\<lparr>name = ''note.txt'', content = c\<rparr>], currentFileIndex = 0,
      searchQuery = [], replaceQuery = [], cursorPosition = p, history = h, historyIndex = i,
      notification = None\<rparr>"

definition origin :: cursor where
  "origin = \<lparr>line = 0, char = 0\<rparr>"

definition undoKey :: key_event where
  "undoKey = \<lparr>key = ''z'', ctrlKey = True, metaKey = False\<rparr>"

definition redoKey :: key_event where
  "redoKey = \<lparr>key = ''y'', ctrlKey = True, metaKey = False\<rparr>"

text \<open>An editor with one freshly loaded document, a search query and a replacement.\<close>

definition replace_state :: "string \<Rightarrow> string \<Rightarrow> string \<Rightarrow> editor_state" where
  "replace_state c q r = (doc_state c origin [c] 0)\<lparr>searchQuery := q, replaceQuery := r\<rparr>"

section \<open>Properties\<close>

subsection \<open>Facts used to evaluate the handlers\<close>

lemmas handler_defs =
  loadDocument_def loadDocument_App_def readerOnload_def readerOnload_App_def initial_state_def
  historyEffect_def historyDeps_def resetHistory_def currentFile_def js_index_def js_slice0_def
  js_at_def keyDown_def handleKeyDown_def handleKeyDown_App_def keySwitch_def keySwitch_App_def
  updateContentAndHistory_def plainKey_def Let_def doc_state_def origin_def undoKey_def redoKey_def
  is_undo_def is_redo_def

subsection \<open>End to end\<close>

text \<open>
  C1. A document with the content \<open>ab\<close>, line feed, \<open>cd\<close> is loaded into the fresh editor:
  the cursor is at (0,0). Two presses of ArrowRight put the cursor at (0,2), a third at (1,0).
  Enter then makes the content \<open>ab\<close>, two line feeds, \<open>cd\<close>, puts the cursor at (2,0) and
  commits the new content to the history. This holds for the handler of
  \<^verbatim>\<open>funcional1.jsx\<close> and for the handler of \<^verbatim>\<open>App.jsx\<close>.
\<close>

theorem end_to_end_arrows_enter:
  "cursorPosition (loadDocument \<lparr>name = nm, content = ''ab'' @ [LF] @ ''cd''\<rparr>) = \<lparr>line = 0, char = 0\<rparr>
   \<and> keysDown (loadDocument \<lparr>name = nm, content = ''ab'' @ [LF] @ ''cd''\<rparr>) [plainKey ''ArrowRight'', plainKey ''ArrowRight'']
       = Inr ((loadDocument \<lparr>name = nm, content = ''ab'' @ [LF] @ ''cd''\<rparr>)\<lparr>cursorPosition := \<lparr>line = 0, char = 2\<rparr>\<rparr>)
   \<and> keysDown (loadDocument \<lparr>name = nm, content = ''ab'' @ [LF] @ ''cd''\<rparr>) [plainKey ''ArrowRight'', plainKey ''ArrowRight'', plainKey ''ArrowRight'']
       = Inr ((loadDocument \<lparr>name = nm, content = ''ab'' @ [LF] @ ''cd''\<rparr>)\<lparr>cursorPosition := \<lparr>line = 1, char = 0\<rparr>\<rparr>)
   \<and> keysDown (loadDocument \<lparr>name = nm, content = ''ab'' @ [LF] @ ''cd''\<rparr>) [plainKey ''ArrowRight'', plainKey ''ArrowRight'', plainKey ''ArrowRight'', plainKey ''Enter'']
       = Inr \<lparr>openedFiles = [\<lparr>name = nm, content = ''ab'' @ [LF, LF] @ ''cd''\<rparr>],
             currentFileIndex = 0, searchQuery = [], replaceQuery = [],
             cursorPosition = \<lparr>line = 2, char = 0\<rparr>,
             history = [''ab'' @ [LF] @ ''cd'', ''ab'' @ [LF, LF] @ ''cd''], historyIndex = 1,
             notification = None\<rparr>
   \<and> cursorPosition (loadDocument_App \<lparr>name = nm, content = ''ab'' @ [LF] @ ''cd''\<rparr>) = \<lparr>line = 0, char = 0\<rparr>
   \<and> keysDown_App (loadDocument_App \<lparr>name = nm, content = ''ab'' @ [LF] @ ''cd''\<rparr>) [plainKey ''ArrowRight'', plainKey ''ArrowRight'']
       = Inr ((loadDocument_App \<lparr>name = nm, content = ''ab'' @ [LF] @ ''cd''\<rparr>)\<lparr>cursorPosition := \<lparr>line = 0, char = 2\<rparr>\<rparr>)
   \<and> keysDown_App (loadDocument_App \<lparr>name = nm, content = ''ab'' @ [LF] @ ''cd''\<rparr>) [plainKey ''ArrowRight'', plainKey ''ArrowRight'', plainKey ''ArrowRight'']
       = Inr ((loadDocument_App \<lparr>name = nm, content = ''ab'' @ [LF] @ ''cd''\<rparr>)\<lparr>cursorPosition := \<lparr>line = 1, char = 0\<rparr>\<rparr>)
   \<and> keysDown_App (loadDocument_App \<lparr>name = nm, content = ''ab'' @ [LF] @ ''cd''\<rparr>) [plainKey ''ArrowRight'', plainKey ''ArrowRight'', plainKey ''ArrowRight'', plainKey ''Enter'']
       = Inr \<lparr>openedFiles = [\<lparr>name = nm, content = ''ab'' @ [LF, LF] @ ''cd''\<rparr>],
             currentFileIndex = 0, searchQuery = [], replaceQuery = [],
             cursorPosition = \<lparr>line = 2, char = 0\<rparr>,
             history = [''ab'' @ [LF] @ ''cd'', ''ab'' @ [LF, LF] @ ''cd''], historyIndex = 1,
             notification = None\<rparr>"
  by (simp add: handler_defs)

subsection \<open>History\<close>

lemma currentFile_upd_simps [simp]:
  "currentFile (s\<lparr>historyIndex := i\<rparr>) = currentFile s"
  "currentFile (s\<lparr>history := h\<rparr>) = currentFile s"
  "currentFile (s\<lparr>cursorPosition := p\<rparr>) = currentFile s"
  "currentFile (s\<lparr>notification := n\<rparr>) = currentFile s"
  by (simp_all add: currentFile_def)

lemma currentFile_content_update:
  "currentFile s = Some f \<Longrightarrow>
   currentFile (s\<lparr>openedFiles := (openedFiles s)[currentFileIndex s := f\<lparr>content := c\<rparr>]\<rparr>)
     = Some (f\<lparr>content := c\<rparr>)"
  by (auto simp: currentFile_def js_index_def split: if_splits)

lemma update_noHistory:
  "currentFile s = Some f \<Longrightarrow>
   updateContentAndHistory c False s
     = s\<lparr>openedFiles := (openedFiles s)[currentFileIndex s := f\<lparr>content := c\<rparr>]\<rparr>"
  by (simp add: updateContentAndHistory_def)

lemma update_same_content:
  "currentFile s = Some f \<Longrightarrow> content f = c \<Longrightarrow>
   s\<lparr>openedFiles := (openedFiles s)[currentFileIndex s := f\<lparr>content := c\<rparr>]\<rparr> = s"
  by (auto simp: currentFile_def js_index_def split: if_splits)

lemma historyDeps_content:
  "currentFile s = Some f \<Longrightarrow>
   historyDeps (s\<lparr>openedFiles := (openedFiles s)[currentFileIndex s := f\<lparr>content := c\<rparr>]\<rparr>) = historyDeps s"
  by (auto simp: historyDeps_def currentFile_def js_index_def split: if_splits)


lemma historyDeps_upd_simps [simp]:
  "historyDeps (s\<lparr>historyIndex := i\<rparr>) = historyDeps s"
  "historyDeps (s\<lparr>history := h\<rparr>) = historyDeps s"
  "historyDeps (s\<lparr>cursorPosition := p\<rparr>) = historyDeps s"
  "historyDeps (s\<lparr>notification := n\<rparr>) = historyDeps s"
  by (simp_all add: historyDeps_def)

lemma historyDeps_update:
  "historyDeps (updateContentAndHistory c b s) = historyDeps s"
  by (cases "currentFile s") (auto simp: updateContentAndHistory_def Let_def historyDeps_content)

lemma historyDeps_handleKeyDown:
  "handleKeyDown s e = Inr s' \<Longrightarrow> historyDeps s' = historyDeps s"
  by (cases "currentFile s")
     (auto simp: handleKeyDown_def Let_def historyDeps_update split: if_splits option.splits sum.splits)

lemma keyDown_eq: "keyDown s e = handleKeyDown s e"
  by (cases "handleKeyDown s e") (auto simp: keyDown_def historyEffect_def dest: historyDeps_handleKeyDown)


lemma undo_step:
  assumes f: "currentFile s = Some f" and u: "is_undo u"
    and i: "0 < historyIndex s" "historyIndex s < int (length (history s))"
  shows "handleKeyDown s u =
    Inr (s\<lparr>historyIndex := historyIndex s - 1,
            openedFiles := (openedFiles s)[currentFileIndex s :=
               f\<lparr>content := history s ! nat (historyIndex s - 1)\<rparr>]\<rparr>)"
  using assms
  by (simp add: handleKeyDown_def is_undo_def js_index_def Let_def updateContentAndHistory_def)

lemma redo_step:
  assumes f: "currentFile s = Some f" and r: "is_redo r"
    and i: "0 \<le> historyIndex s + 1" "historyIndex s + 1 < int (length (history s))"
  shows "handleKeyDown s r =
    Inr (s\<lparr>historyIndex := historyIndex s + 1,
            openedFiles := (openedFiles s)[currentFileIndex s :=
               f\<lparr>content := history s ! nat (historyIndex s + 1)\<rparr>]\<rparr>)"
  using assms
  by (auto simp add: handleKeyDown_def is_redo_def js_index_def Let_def updateContentAndHistory_def)

lemma undo_boundary:
  "is_undo u \<Longrightarrow> historyIndex s \<le> 0 \<Longrightarrow> handleKeyDown s u = Inr s"
  by (cases "currentFile s") (auto simp: handleKeyDown_def is_undo_def)

lemma redo_boundary:
  "is_redo r \<Longrightarrow> historyIndex s \<ge> int (length (history s)) - 1 \<Longrightarrow> handleKeyDown s r = Inr s"
  by (cases "currentFile s") (auto simp: handleKeyDown_def is_redo_def)

lemma undo_redo_history:
  "is_undo e \<or> is_redo e \<Longrightarrow> handleKeyDown s e = Inr s' \<Longrightarrow> history s' = history s"
  by (cases "currentFile s")
     (auto simp: handleKeyDown_def is_undo_def is_redo_def Let_def updateContentAndHistory_def
           split: if_splits option.splits)


lemma commit_same:
  assumes "currentFile s = Some f" "history_ok s" "c = history s ! nat (historyIndex s)"
  shows "history (updateContentAndHistory c True s) = history s"
    and "historyIndex (updateContentAndHistory c True s) = historyIndex s"
  using assms by (simp_all add: updateContentAndHistory_def history_ok_def js_index_def)

lemma commit_new:
  assumes "currentFile s = Some f" "history_ok s" "c \<noteq> history s ! nat (historyIndex s)"
  shows "history (updateContentAndHistory c True s) = take (nat (historyIndex s) + 1) (history s) @ [c]"
    and "historyIndex (updateContentAndHistory c True s) = int (length (history (updateContentAndHistory c True s))) - 1"
    and "historyIndex (updateContentAndHistory c True s) = historyIndex s + 1"
  using assms by (auto simp add: updateContentAndHistory_def history_ok_def js_index_def js_slice0_def Let_def nat_add_distrib min_def)

lemma commit_currentFile:
  "currentFile s = Some f \<Longrightarrow> currentFile (updateContentAndHistory c b s) = Some (f\<lparr>content := c\<rparr>)"
  by (auto simp: updateContentAndHistory_def Let_def currentFile_content_update)

lemma commit_top:
  assumes "currentFile s = Some f" "history_ok s"
  shows "history_ok (updateContentAndHistory c True s) \<and>
         history (updateContentAndHistory c True s) ! nat (historyIndex (updateContentAndHistory c True s)) = c"
proof (cases "c = history s ! nat (historyIndex s)")
  case True
  then show ?thesis using commit_same [OF assms True] assms(2) by (simp add: history_ok_def)
next
  case False
  show ?thesis using commit_new [OF assms False] assms(2)
    by (auto simp add: history_ok_def nth_append)
qed


text \<open>
  C2. In a state with an open document, whose history index is positive and inside the history,
  undo moves the index down by one, makes the entry there the content and leaves the history as
  it is; when the content before the undo was the entry at the index (it was committed), a redo
  right after the undo gives back exactly the state before the undo. Undo at index 0 and redo at the
  last index change nothing. No undo and no redo changes the list of history entries.
\<close>

theorem undo_redo_inverse:
  assumes f: "currentFile s = Some f" and u: "is_undo u" and r: "is_redo r"
  shows "(0 < historyIndex s \<and> historyIndex s < int (length (history s)) \<longrightarrow>
          (\<exists>s'. keyDown s u = Inr s' \<and>
                historyIndex s' = historyIndex s - 1 \<and>
                history s' = history s \<and>
                map_option content (currentFile s') = Some (history s ! nat (historyIndex s - 1)) \<and>
                (content f = history s ! nat (historyIndex s) \<longrightarrow> keyDown s' r = Inr s)))
       \<and> (historyIndex s = 0 \<longrightarrow> keyDown s u = Inr s)
       \<and> (historyIndex s = int (length (history s)) - 1 \<longrightarrow> keyDown s r = Inr s)
       \<and> (\<forall>s'. keyDown s u = Inr s' \<or> keyDown s r = Inr s' \<longrightarrow> history s' = history s)"
proof (intro conjI impI allI)
  assume i: "0 < historyIndex s \<and> historyIndex s < int (length (history s))"
  let ?c = "history s ! nat (historyIndex s - 1)"
  let ?s' = "s\<lparr>historyIndex := historyIndex s - 1,
            openedFiles := (openedFiles s)[currentFileIndex s := f\<lparr>content := ?c\<rparr>]\<rparr>"
  have step: "keyDown s u = Inr ?s'"
    using undo_step [OF f u] i by (simp add: keyDown_eq)
  have cf: "currentFile ?s' = Some (f\<lparr>content := ?c\<rparr>)"
    using f by (auto simp: currentFile_def js_index_def split: if_splits)
  have rb: "keyDown ?s' r = Inr s" if lv: "content f = history s ! nat (historyIndex s)"
  proof -
    have "handleKeyDown ?s' r = Inr (?s'\<lparr>historyIndex := historyIndex ?s' + 1,
            openedFiles := (openedFiles ?s')[currentFileIndex ?s' :=
               (f\<lparr>content := ?c\<rparr>)\<lparr>content := history ?s' ! nat (historyIndex ?s' + 1)\<rparr>]\<rparr>)"
      by (rule redo_step [OF cf r]) (use i in auto)
    also have "\<dots> = Inr s"
      using f lv [symmetric] by (auto simp: currentFile_def js_index_def split: if_splits)
    finally show ?thesis by (simp add: keyDown_eq)
  qed
  show "\<exists>s'. keyDown s u = Inr s' \<and>
                historyIndex s' = historyIndex s - 1 \<and>
                history s' = history s \<and>
                map_option content (currentFile s') = Some (history s ! nat (historyIndex s - 1)) \<and>
                (content f = history s ! nat (historyIndex s) \<longrightarrow> keyDown s' r = Inr s)"
    using step cf rb by (intro exI [of _ ?s']) simp
next
  assume "historyIndex s = 0"
  then show "keyDown s u = Inr s" using undo_boundary [OF u] by (simp add: keyDown_eq)
next
  assume "historyIndex s = int (length (history s)) - 1"
  then show "keyDown s r = Inr s" using redo_boundary [OF r] by (simp add: keyDown_eq)
next
  fix s' assume "keyDown s u = Inr s' \<or> keyDown s r = Inr s'"
  then show "history s' = history s"
    using undo_redo_history u r by (auto simp: keyDown_eq)
qed

theorem undo_redo_inverse_witness:
  "currentFile (doc_state ''ab'' origin [''a'', ''ab''] 1) = Some \<lparr>name = ''note.txt'', content = ''ab''\<rparr>
   \<and> is_undo undoKey \<and> is_redo redoKey
   \<and> keyDown (doc_state ''ab'' origin [''a'', ''ab''] 1) undoKey
        = Inr (doc_state ''a'' origin [''a'', ''ab''] 0)
   \<and> keyDown (doc_state ''a'' origin [''a'', ''ab''] 0) redoKey
        = Inr (doc_state ''ab'' origin [''a'', ''ab''] 1)
   \<and> keyDown (doc_state ''ab'' origin [''a'', ''ab''] 1) redoKey
        = Inr (doc_state ''ab'' origin [''a'', ''ab''] 1)"
proof -
  have f: "currentFile (doc_state ''ab'' origin [''a'', ''ab''] 1)
             = Some \<lparr>name = ''note.txt'', content = ''ab''\<rparr>"
    by (simp add: handler_defs)
  have u: "is_undo undoKey" and r: "is_redo redoKey"
    by (simp_all add: handler_defs)
  have step: "keyDown (doc_state ''ab'' origin [''a'', ''ab''] 1) undoKey
        = Inr (doc_state ''a'' origin [''a'', ''ab''] 0)"
    by (simp add: handler_defs)
  show ?thesis
    using undo_redo_inverse [OF f u r] f u r step by (simp add: doc_state_def)
qed

text \<open>
  C3. In a state with an open document whose history index is inside the history: a commit of
  the content that equals the entry at the index leaves the history and the index as they are;
  a commit of any other content drops the entries after the index, appends the content and
  makes the index the last position; a second commit of the same content right after the first
  adds nothing; and after an undo followed by a commit of content that differs from the entry
  the undo went back to, redo changes nothing.
\<close>

theorem commit_history:
  assumes f: "currentFile s = Some f" and ok: "history_ok s"
  shows "(c = history s ! nat (historyIndex s) \<longrightarrow>
            history (updateContentAndHistory c True s) = history s
          \<and> historyIndex (updateContentAndHistory c True s) = historyIndex s)
       \<and> (c \<noteq> history s ! nat (historyIndex s) \<longrightarrow>
            history (updateContentAndHistory c True s) = take (nat (historyIndex s) + 1) (history s) @ [c]
          \<and> historyIndex (updateContentAndHistory c True s)
              = int (length (history (updateContentAndHistory c True s))) - 1)
       \<and> history (updateContentAndHistory c True (updateContentAndHistory c True s))
            = history (updateContentAndHistory c True s)
       \<and> historyIndex (updateContentAndHistory c True (updateContentAndHistory c True s))
            = historyIndex (updateContentAndHistory c True s)
       \<and> (\<forall>u r s1. is_undo u \<and> is_redo r \<and> 0 < historyIndex s \<and> keyDown s u = Inr s1
               \<and> c \<noteq> history s ! nat (historyIndex s - 1)
             \<longrightarrow> keyDown (updateContentAndHistory c True s1) r = Inr (updateContentAndHistory c True s1))"
proof -
  let ?s' = "updateContentAndHistory c True s"
  have cf': "currentFile ?s' = Some (f\<lparr>content := c\<rparr>)" by (rule commit_currentFile [OF f])
  have top: "history_ok ?s'" "c = history ?s' ! nat (historyIndex ?s')"
    using commit_top [OF f ok, of c] by simp_all
  have twice: "history (updateContentAndHistory c True ?s') = history ?s'"
      "historyIndex (updateContentAndHistory c True ?s') = historyIndex ?s'"
    using commit_same [OF cf' top] by simp_all
  have branch: "keyDown (updateContentAndHistory c True s1) r = Inr (updateContentAndHistory c True s1)"
    if u: "is_undo u" and r: "is_redo r" and pos: "0 < historyIndex s" and step: "keyDown s u = Inr s1"
      and new: "c \<noteq> history s ! nat (historyIndex s - 1)" for u r s1
  proof -
    have s1: "s1 = s\<lparr>historyIndex := historyIndex s - 1,
            openedFiles := (openedFiles s)[currentFileIndex s :=
               f\<lparr>content := history s ! nat (historyIndex s - 1)\<rparr>]\<rparr>"
      using undo_step [OF f u pos] ok step by (simp add: keyDown_eq history_ok_def)
    have cf1: "currentFile s1 = Some (f\<lparr>content := history s ! nat (historyIndex s - 1)\<rparr>)"
      unfolding s1 using f by (auto simp: currentFile_def js_index_def split: if_splits)
    have ok1: "history_ok s1" unfolding s1 using ok pos by (simp add: history_ok_def)
    have new1: "c \<noteq> history s1 ! nat (historyIndex s1)" unfolding s1 using new by simp
    have "historyIndex (updateContentAndHistory c True s1)
            = int (length (history (updateContentAndHistory c True s1))) - 1"
      by (rule commit_new(2) [OF cf1 ok1 new1])
    then have "handleKeyDown (updateContentAndHistory c True s1) r = Inr (updateContentAndHistory c True s1)"
      by (intro redo_boundary [OF r]) simp
    then show ?thesis by (simp add: keyDown_eq)
  qed
  show ?thesis
    using commit_same [OF f ok, of c] commit_new(1,2) [OF f ok, of c] twice branch
    by (intro conjI impI allI) (simp_all, blast)
qed

theorem commit_history_witness:
  "currentFile (doc_state ''ab'' origin [''a'', ''ab''] 1) = Some \<lparr>name = ''note.txt'', content = ''ab''\<rparr>
   \<and> history_ok (doc_state ''ab'' origin [''a'', ''ab''] 1)
   \<and> history (updateContentAndHistory ''ab'' True (doc_state ''ab'' origin [''a'', ''ab''] 1))
        = [''a'', ''ab'']
   \<and> history (updateContentAndHistory ''abc'' True (doc_state ''ab'' origin [''a'', ''ab''] 1))
        = [''a'', ''ab'', ''abc'']
   \<and> history (updateContentAndHistory ''abc'' True
                 (updateContentAndHistory ''abc'' True (doc_state ''ab'' origin [''a'', ''ab''] 1)))
        = [''a'', ''ab'', ''abc'']
   \<and> keyDown (doc_state ''ab'' origin [''a'', ''ab''] 1) undoKey
        = Inr (doc_state ''a'' origin [''a'', ''ab''] 0)
   \<and> updateContentAndHistory ''ax'' True (doc_state ''a'' origin [''a'', ''ab''] 0)
        = doc_state ''ax'' origin [''a'', ''ax''] 1
   \<and> keyDown (doc_state ''ax'' origin [''a'', ''ax''] 1) redoKey
        = Inr (doc_state ''ax'' origin [''a'', ''ax''] 1)"
proof -
  have f: "currentFile (doc_state ''ab'' origin [''a'', ''ab''] 1)
             = Some \<lparr>name = ''note.txt'', content = ''ab''\<rparr>"
    by (simp add: handler_defs)
  have ok: "history_ok (doc_state ''ab'' origin [''a'', ''ab''] 1)"
    by (simp add: history_ok_def doc_state_def)
  have step: "keyDown (doc_state ''ab'' origin [''a'', ''ab''] 1) undoKey
        = Inr (doc_state ''a'' origin [''a'', ''ab''] 0)"
    by (simp add: handler_defs)
  have c: "updateContentAndHistory ''ax'' True (doc_state ''a'' origin [''a'', ''ab''] 0)
        = doc_state ''ax'' origin [''a'', ''ax''] 1"
    by (simp add: handler_defs)
  have u: "is_undo undoKey" and r: "is_redo redoKey"
    by (simp_all add: handler_defs)
  have pos: "0 < historyIndex (doc_state ''ab'' origin [''a'', ''ab''] 1)"
    and new: "''ax'' \<noteq> history (doc_state ''ab'' origin [''a'', ''ab''] 1)
                 ! nat (historyIndex (doc_state ''ab'' origin [''a'', ''ab''] 1) - 1)"
    by (simp_all add: doc_state_def)
  have "\<forall>u r s1. is_undo u \<and> is_redo r
          \<and> 0 < historyIndex (doc_state ''ab'' origin [''a'', ''ab''] 1)
          \<and> keyDown (doc_state ''ab'' origin [''a'', ''ab''] 1) u = Inr s1
          \<and> ''ax'' \<noteq> history (doc_state ''ab'' origin [''a'', ''ab''] 1)
                 ! nat (historyIndex (doc_state ''ab'' origin [''a'', ''ab''] 1) - 1)
          \<longrightarrow> keyDown (updateContentAndHistory ''ax'' True s1) r
                = Inr (updateContentAndHistory ''ax'' True s1)"
    using commit_history [OF f ok, of "''ax''"] by blast
  then have "keyDown (updateContentAndHistory ''ax'' True (doc_state ''a'' origin [''a'', ''ab''] 0)) redoKey
        = Inr (updateContentAndHistory ''ax'' True (doc_state ''a'' origin [''a'', ''ab''] 0))"
    using u r pos step new by blast
  then have redo: "keyDown (doc_state ''ax'' origin [''a'', ''ax''] 1) redoKey
        = Inr (doc_state ''ax'' origin [''a'', ''ax''] 1)"
    by (simp only: c)
  show ?thesis
    using commit_history [OF f ok, of "''ab''"] commit_history [OF f ok, of "''abc''"]
      f ok step c redo
    by (simp add: doc_state_def)
qed

subsection \<open>Lines\<close>

lemma js_at_in: "i < length xs \<Longrightarrow> js_at xs i = Some (xs ! i)"
  by (simp add: js_at_def js_index_def)

lemma split_newline_ok: "lines_ok (split_newline str)"
  by (induction str) (auto simp: lines_ok_def split: list.splits)

lemma split_join_newline: "lines_ok ls \<Longrightarrow> split_newline (join_newline ls) = ls"
proof (induction ls rule: join_newline.induct)
  case 1
  then show ?case by (simp add: lines_ok_def)
next
  case (2 l)
  then have "LF \<notin> set l" by (simp add: lines_ok_def)
  then show ?case by (induction l) (auto split: list.splits)
next
  case (3 l m ls)
  then have l: "LF \<notin> set l" and rest: "split_newline (join_newline (m # ls)) = m # ls"
    by (simp_all add: lines_ok_def)
  from l show ?case using rest by (induction l) (auto split: list.splits)
qed

lemma join_split_newline: "join_newline (split_newline str) = str"
proof (induction str)
  case Nil
  then show ?case by simp
next
  case (Cons c cs)
  then show ?case
    by (cases "split_newline cs"; cases "tl (split_newline cs)") (auto split: list.splits)
qed


lemma lines_ok_update:
  "lines_ok lines \<Longrightarrow> LF \<notin> set v \<Longrightarrow> lines_ok (lines[i := v])"
  by (auto simp: lines_ok_def dest!: subsetD [OF set_update_subset_insert])

lemma lines_ok_nth: "lines_ok lines \<Longrightarrow> i < length lines \<Longrightarrow> LF \<notin> set (lines ! i)"
  by (simp add: lines_ok_def)

lemma notin_take: "x \<notin> set l \<Longrightarrow> x \<notin> set (take n l)"
  by (auto dest: in_set_takeD)

lemma notin_drop: "x \<notin> set l \<Longrightarrow> x \<notin> set (drop n l)"
  by (auto dest: in_set_dropD)

lemma keySwitch_backspace:
  assumes ok: "lines_ok lines" and ln: "ln < length lines" and ch: "ch \<le> length (lines ! ln)"
    and k: "key e = ''Backspace''"
  shows "\<exists>lines' ln' ch'. keySwitch lines ln ch e = Inr (lines', ln', ch', True) \<and> lines_ok lines'
           \<and> ln' < length lines' \<and> ch' \<le> length (lines' ! ln')"
proof -
  consider (del) "ch > 0" | (join) "ch = 0" "ln > 0" | (none) "ch = 0" "ln = 0" by linarith
  then show ?thesis
  proof cases
    case del
    have "LF \<notin> set (take (ch - 1) (lines ! ln) @ drop ch (lines ! ln))"
      using lines_ok_nth [OF ok ln] by (auto dest: in_set_takeD in_set_dropD)
    then have "lines_ok (lines[ln := take (ch - 1) (lines ! ln) @ drop ch (lines ! ln)])"
      by (rule lines_ok_update [OF ok])
    then show ?thesis using del ln ch k by (simp add: keySwitch_def js_at_in)
  next
    case join
    let ?p = "lines ! (ln - 1)" and ?l = "lines ! ln"
    let ?lines1 = "lines[ln - 1 := ?p @ ?l]"
    have "LF \<notin> set (?p @ ?l)"
      using lines_ok_nth [OF ok ln] lines_ok_nth [OF ok, of "ln - 1"] ln by auto
    then have ok1: "lines_ok ?lines1" by (rule lines_ok_update [OF ok])
    have ok2: "lines_ok (take ln ?lines1 @ drop (Suc ln) ?lines1)"
      using ok ok1 join ln by (auto simp: lines_ok_def dest: in_set_takeD in_set_dropD)
    have nth: "(take ln ?lines1 @ drop (Suc ln) ?lines1) ! (ln - 1) = ?p @ ?l"
      using join ln by (simp add: nth_append)
    show ?thesis
      using join ln k ok2 nth by (simp add: keySwitch_def js_at_in Let_def)
  next
    case none
    then show ?thesis using ok ln k by (simp add: keySwitch_def)
  qed
qed

lemma keySwitch_enter:
  assumes ok: "lines_ok lines" and ln: "ln < length lines" and ch: "ch \<le> length (lines ! ln)"
    and k: "key e = ''Enter''"
  shows "\<exists>lines' ln' ch'. keySwitch lines ln ch e = Inr (lines', ln', ch', True) \<and> lines_ok lines'
           \<and> ln' < length lines' \<and> ch' \<le> length (lines' ! ln')"
proof -
  let ?l = "lines ! ln"
  let ?lines1 = "lines[ln := take ch ?l]"
  have l: "LF \<notin> set ?l" by (rule lines_ok_nth [OF ok ln])
  then have ok1: "lines_ok ?lines1" by (intro lines_ok_update [OF ok] notin_take)
  have ok2: "lines_ok (take (ln + 1) ?lines1 @ drop ch ?l # drop (ln + 1) ?lines1)"
    using ok ok1 l by (auto simp: lines_ok_def dest: in_set_takeD in_set_dropD)
  show ?thesis using ln k ok2 by (simp add: keySwitch_def js_at_in Let_def)
qed

lemma keySwitch_insert:
  assumes ok: "lines_ok lines" and ln: "ln < length lines" and ch: "ch \<le> length (lines ! ln)"
    and k: "key e \<notin> set [''ArrowUp'', ''ArrowDown'', ''ArrowLeft'', ''ArrowRight'', ''Home'', ''End'',
                       ''Backspace'', ''Enter'']" "key e \<noteq> [LF]"
  shows "\<exists>lines' ln' ch' b. keySwitch lines ln ch e = Inr (lines', ln', ch', b) \<and> lines_ok lines'
           \<and> ln' < length lines' \<and> ch' \<le> length (lines' ! ln') \<and> (\<not> b \<longrightarrow> lines' = lines)"
proof (cases "length (key e) = 1 \<and> \<not> ctrlKey e \<and> \<not> metaKey e")
  case True
  then obtain c where c: "key e = [c]" by (cases "key e") auto
  then have "c \<noteq> LF" using k by simp
  then have "LF \<notin> set (take ch (lines ! ln) @ key e @ drop ch (lines ! ln))"
    using lines_ok_nth [OF ok ln] c by (auto dest: in_set_takeD in_set_dropD)
  then have "lines_ok (lines[ln := take ch (lines ! ln) @ key e @ drop ch (lines ! ln)])"
    by (rule lines_ok_update [OF ok])
  then show ?thesis using True k ln ch by (auto simp add: keySwitch_def js_at_in)
next
  case False
  then show ?thesis using k ok ln ch by (auto simp add: keySwitch_def)
qed



subsection \<open>Cursor motion\<close>

lemma keySwitch_motion:
  assumes rng: "cursor_in_range lines p" and k: "key e = key_of d"
  shows "keySwitch lines (line p) (char p) e
           = Inr (lines, line (spec_move p d lines), char (spec_move p d lines), False)"
    and "cursor_in_range lines (spec_move p d lines)"
  using assms by (cases d; auto simp: keySwitch_def cursor_in_range_def js_at_in)+


text \<open>
  C4. For every list of lines and every cursor in range, the keys ArrowUp, ArrowDown, ArrowLeft,
  ArrowRight, Home and End, with any modifiers, move the cursor as the specification words the
  motion (\<open>spec_move\<close>): up and down by one line where that line exists, with the column
  clamped to its length, and not at all at the first and last line; left by one column, or to
  the end of the line before, or not at all at (0,0); right by one column, or to the start of
  the next line, or not at all at the end of the last line; Home to column 0 and End to the
  length of the line, on the same line. The lines stay as they are, nothing is committed, and
  the new cursor is in range.
\<close>

theorem cursor_motion:
  assumes rng: "cursor_in_range lines p" and k: "key e = key_of d"
  shows "keySwitch lines (line p) (char p) e
           = Inr (lines, line (spec_move p d lines), char (spec_move p d lines), False)
       \<and> cursor_in_range lines (spec_move p d lines)
       \<and> (\<forall>s f. currentFile s = Some f \<and> split_newline (content f) = lines \<and> cursorPosition s = p
             \<longrightarrow> keyDown s e = Inr (s\<lparr>cursorPosition := spec_move p d lines\<rparr>))"
proof -
  note sw = keySwitch_motion [OF assms]
  have st: "keyDown s e = Inr (s\<lparr>cursorPosition := spec_move p d lines\<rparr>)"
    if "currentFile s = Some f" "split_newline (content f) = lines" "cursorPosition s = p" for s f
  proof -
    have nk: "key e \<noteq> ''s''" "key e \<noteq> ''z''" "key e \<noteq> ''y''"
      using k by (cases d; simp)+
    show ?thesis
      using that nk sw(1) by (simp add: keyDown_eq handleKeyDown_def)
  qed
  show ?thesis using sw st by blast
qed

theorem cursor_motion_witness:
  "cursor_in_range [''ab'', ''cd''] \<lparr>line = 0, char = 2\<rparr>
   \<and> key (plainKey ''ArrowRight'') = key_of MoveRight
   \<and> keySwitch [''ab'', ''cd''] 0 2 (plainKey ''ArrowRight'') = Inr ([''ab'', ''cd''], 1, 0, False)
   \<and> cursor_in_range [''ab'', ''cd''] \<lparr>line = 1, char = 0\<rparr>"
proof -
  have rng: "cursor_in_range [''ab'', ''cd''] \<lparr>line = 0, char = 2\<rparr>"
    by (simp add: cursor_in_range_def)
  have k: "key (plainKey ''ArrowRight'') = key_of MoveRight"
    by (simp add: plainKey_def)
  show ?thesis using cursor_motion [OF rng k] rng k by simp
qed

subsection \<open>The cursor invariant\<close>

lemma keySwitch_invariant:
  assumes ok: "lines_ok lines" and ln: "ln < length lines" and ch: "ch \<le> length (lines ! ln)"
    and k: "key e \<noteq> [LF]"
  shows "\<exists>lines' ln' ch' b. keySwitch lines ln ch e = Inr (lines', ln', ch', b) \<and> lines_ok lines'
           \<and> ln' < length lines' \<and> ch' \<le> length (lines' ! ln') \<and> (\<not> b \<longrightarrow> lines' = lines)"
proof -
  have motion: ?thesis if "key e = key_of d" for d
  proof -
    have rng: "cursor_in_range lines \<lparr>line = ln, char = ch\<rparr>"
      using ln ch by (simp add: cursor_in_range_def)
    show ?thesis
      using keySwitch_motion [OF rng that] ok by (auto simp: cursor_in_range_def)
  qed
  consider "key e = ''ArrowUp''" | "key e = ''ArrowDown''" | "key e = ''ArrowLeft''"
    | "key e = ''ArrowRight''" | "key e = ''Home''" | "key e = ''End''"
    | "key e = ''Backspace''" | "key e = ''Enter''"
    | "key e \<notin> set [''ArrowUp'', ''ArrowDown'', ''ArrowLeft'', ''ArrowRight'', ''Home'', ''End'',
                       ''Backspace'', ''Enter'']"
    by fastforce
  then show ?thesis
  proof cases
    case 1
    then show ?thesis by (intro motion [of MoveUp]) simp
  next
    case 2
    then show ?thesis by (intro motion [of MoveDown]) simp
  next
    case 3
    then show ?thesis by (intro motion [of MoveLeft]) simp
  next
    case 4
    then show ?thesis by (intro motion [of MoveRight]) simp
  next
    case 5
    then show ?thesis by (intro motion [of MoveHome]) simp
  next
    case 6
    then show ?thesis by (intro motion [of MoveEnd]) simp
  next
    case 7
    then show ?thesis using keySwitch_backspace [OF ok ln ch] by blast
  next
    case 8
    then show ?thesis using keySwitch_enter [OF ok ln ch] by blast
  next
    case 9
    then show ?thesis using keySwitch_insert [OF ok ln ch _ k] by blast
  qed
qed

lemma cursorPosition_update [simp]:
  "cursorPosition (updateContentAndHistory c b s) = cursorPosition s"
  by (cases "currentFile s") (auto simp: updateContentAndHistory_def Let_def)

lemma cursorPosition_historyEffect [simp]:
  "cursorPosition (historyEffect prev s) = cursorPosition s"
  by (cases "currentFile s") (auto simp: historyEffect_def resetHistory_def)

lemma cursorPosition_handleReplaceAll:
  "cursorPosition (handleReplaceAll s) = cursorPosition s"
  by (auto simp: handleReplaceAll_def Let_def split: option.splits sum.splits)


text \<open>
  C7 as the code has it. From a state whose cursor is in range for the open document, every
  key press that is neither undo nor redo (a motion, Backspace, Enter, the insertion of a
  character other than the line feed, the save accelerator, an ignored key) ends without an
  exception in a state whose cursor is in range for the resulting content. Undo, redo and
  replace-all give the document another content and leave the cursor where it was: the code
  has no clamping.
\<close>

theorem cursor_invariant_after_edits:
  assumes ok: "cursor_ok s" and k: "key e \<noteq> [LF]" and nu: "\<not> is_undo e" "\<not> is_redo e"
  shows "(\<exists>s'. keyDown s e = Inr s' \<and> cursor_ok s')
       \<and> (\<forall>h s'. (is_undo h \<or> is_redo h) \<and> keyDown s h = Inr s' \<longrightarrow> cursorPosition s' = cursorPosition s)
       \<and> cursorPosition (replaceAllClick s) = cursorPosition s"
proof (intro conjI allI impI)
  from ok obtain f where f: "currentFile s = Some f"
    and rng: "cursor_in_range (split_newline (content f)) (cursorPosition s)"
    by (auto simp: cursor_ok_def split: option.splits)
  let ?lines = "split_newline (content f)"
  show "\<exists>s'. keyDown s e = Inr s' \<and> cursor_ok s'"
  proof (cases "(ctrlKey e \<or> metaKey e) \<and> key e = ''s''")
    case True
    then have "handleKeyDown s e = Inr (s\<lparr>notification := Some Saved\<rparr>)"
      using f by (simp add: handleKeyDown_def)
    moreover have "cursor_ok (s\<lparr>notification := Some Saved\<rparr>)"
      using ok by (simp add: cursor_ok_def split: option.splits)
    ultimately show ?thesis by (simp add: keyDown_eq)
  next
    case False
    have lo: "lines_ok ?lines" by (rule split_newline_ok)
    have inl: "line (cursorPosition s) < length ?lines"
      and inc: "char (cursorPosition s) \<le> length (?lines ! line (cursorPosition s))"
      using rng by (simp_all add: cursor_in_range_def)
    obtain lines' ln' ch' b where
      sw: "keySwitch ?lines (line (cursorPosition s)) (char (cursorPosition s)) e = Inr (lines', ln', ch', b)"
      and ok': "lines_ok lines'" and ln': "ln' < length lines'" and ch': "ch' \<le> length (lines' ! ln')"
      and same: "\<not> b \<longrightarrow> lines' = ?lines"
      using keySwitch_invariant [OF lo inl inc k] by blast
    let ?s' = "(if b then updateContentAndHistory (join_newline lines') True s else s)
                 \<lparr>cursorPosition := \<lparr>line = ln', char = ch'\<rparr>\<rparr>"
    have step: "handleKeyDown s e = Inr ?s'"
      using f False nu sw by (auto simp add: handleKeyDown_def is_undo_def is_redo_def)
    have "cursor_ok ?s'"
    proof (cases b)
      case True
      then show ?thesis
        using commit_currentFile [OF f, of "join_newline lines'" True] split_join_newline [OF ok'] ln' ch'
        by (simp add: cursor_ok_def cursor_in_range_def)
    next
      case False
      then show ?thesis using f same ln' ch' by (simp add: cursor_ok_def cursor_in_range_def)
    qed
    then show ?thesis using step by (simp add: keyDown_eq)
  qed
next
  fix h s' assume "(is_undo h \<or> is_redo h) \<and> keyDown s h = Inr s'"
  then show "cursorPosition s' = cursorPosition s"
    by (cases "currentFile s")
       (auto simp: keyDown_eq handleKeyDown_def is_undo_def is_redo_def Let_def
             split: if_splits option.splits)
next
  show "cursorPosition (replaceAllClick s) = cursorPosition s"
    by (simp add: replaceAllClick_def cursorPosition_handleReplaceAll)
qed


theorem cursor_invariant_after_edits_witness:
  "cursor_ok (doc_state ''ab'' \<lparr>line = 0, char = 1\<rparr> [''ab''] 0)
   \<and> key (plainKey ''x'') \<noteq> [LF] \<and> \<not> is_undo (plainKey ''x'') \<and> \<not> is_redo (plainKey ''x'')
   \<and> keyDown (doc_state ''ab'' \<lparr>line = 0, char = 1\<rparr> [''ab''] 0) (plainKey ''x'')
        = Inr (doc_state ''axb'' \<lparr>line = 0, char = 2\<rparr> [''ab'', ''axb''] 1)
   \<and> cursor_ok (doc_state ''axb'' \<lparr>line = 0, char = 2\<rparr> [''ab'', ''axb''] 1)"
proof -
  have ok: "cursor_ok (doc_state ''ab'' \<lparr>line = 0, char = 1\<rparr> [''ab''] 0)"
    by (simp add: handler_defs cursor_ok_def cursor_in_range_def)
  have k: "key (plainKey ''x'') \<noteq> [LF]"
    and nu: "\<not> is_undo (plainKey ''x'')" "\<not> is_redo (plainKey ''x'')"
    by (simp_all add: handler_defs)
  have step: "keyDown (doc_state ''ab'' \<lparr>line = 0, char = 1\<rparr> [''ab''] 0) (plainKey ''x'')
        = Inr (doc_state ''axb'' \<lparr>line = 0, char = 2\<rparr> [''ab'', ''axb''] 1)"
    by (simp add: handler_defs)
  show ?thesis
    using cursor_invariant_after_edits [OF ok k nu] ok k nu step by simp
qed

text \<open>
  C7 as it is stated fails: after the letter \<open>a\<close> is typed into an empty document the
  cursor is at (0,1); undo makes the document empty again and leaves the cursor at (0,1),
  behind the end of the only line.
\<close>

theorem cursor_invariant_undo_counterexample:
  "keysDown (loadDocument \<lparr>name = ''note.txt'', content = []\<rparr>) [plainKey ''a'']
     = Inr (doc_state ''a'' \<lparr>line = 0, char = 1\<rparr> [[], ''a''] 1)
   \<and> cursor_ok (doc_state ''a'' \<lparr>line = 0, char = 1\<rparr> [[], ''a''] 1)
   \<and> keyDown (doc_state ''a'' \<lparr>line = 0, char = 1\<rparr> [[], ''a''] 1) undoKey
     = Inr (doc_state [] \<lparr>line = 0, char = 1\<rparr> [[], ''a''] 0)
   \<and> \<not> cursor_ok (doc_state [] \<lparr>line = 0, char = 1\<rparr> [[], ''a''] 0)"
  by (simp add: handler_defs cursor_ok_def cursor_in_range_def)

text \<open>
  What the cursor left behind can do: after Enter at the end of the line \<open>a\<close> and an undo,
  the cursor is on line 1 of a document that has one line. Backspace then joins the missing
  line to the line before it, which appends the text \<^verbatim>\<open>undefined\<close>, and ArrowRight
  throws while it reads the length of the missing line.
\<close>

lemma stale_cursor_after_undo:
  "keysDown (loadDocument \<lparr>name = ''note.txt'', content = ''a''\<rparr>)
      [plainKey ''End'', plainKey ''Enter'', undoKey, plainKey ''Backspace'']
     = Inr (doc_state ''aundefined'' \<lparr>line = 0, char = 1\<rparr> [''a'', ''aundefined''] 1)
   \<and> keysDown (loadDocument \<lparr>name = ''note.txt'', content = ''a''\<rparr>)
      [plainKey ''End'', plainKey ''Enter'', undoKey, plainKey ''ArrowRight'']
     = Inl TypeError"
  by (simp add: handler_defs)

subsection \<open>Switching documents\<close>

lemma history_reset_on_change:
  assumes "historyDeps s' \<noteq> historyDeps s" "currentFile s' = Some f"
  shows "history (historyEffect s s') = [content f] \<and> historyIndex (historyEffect s s') = 0"
  using assms by (simp add: historyEffect_def resetHistory_def)

lemmas document_defs =
  fileLoaded_def tabClick_def closeTab_def handleClose_def setCurrentFileIndex_def enumerate_eq_zip

text \<open>
  C8 fails on the code. The effect that resets the history runs when the index of the current
  file or its name changes. Two documents with the same name are open, the first is active and
  has been edited; closing it makes the second document the active one at the same index and
  under the same name, so the effect does not run: the history keeps the snapshots of the
  closed document, the entry at the index is not the live content, and undo writes the closed
  document's text into the other document. In \<^verbatim>\<open>App.jsx\<close> no effect resets the history:
  a click on another document keeps the history of the document loaded last.
\<close>

theorem history_kept_when_same_name_closed:
  "keyDown (tabClick 0 (fileLoaded 1 0 1 \<lparr>name = ''a.txt'', content = ''y''\<rparr>
              (loadDocument \<lparr>name = ''a.txt'', content = ''x''\<rparr>))) (plainKey ''z'')
     = Inr \<lparr>openedFiles = [\<lparr>name = ''a.txt'', content = ''zx''\<rparr>, \<lparr>name = ''a.txt'', content = ''y''\<rparr>],
            currentFileIndex = 0, searchQuery = [], replaceQuery = [],
            cursorPosition = \<lparr>line = 0, char = 1\<rparr>,
            history = [''x'', ''zx''], historyIndex = 1, notification = None\<rparr>
   \<and> closeTab 0 \<lparr>openedFiles = [\<lparr>name = ''a.txt'', content = ''zx''\<rparr>, \<lparr>name = ''a.txt'', content = ''y''\<rparr>],
            currentFileIndex = 0, searchQuery = [], replaceQuery = [],
            cursorPosition = \<lparr>line = 0, char = 1\<rparr>,
            history = [''x'', ''zx''], historyIndex = 1, notification = None\<rparr>
     = \<lparr>openedFiles = [\<lparr>name = ''a.txt'', content = ''y''\<rparr>],
        currentFileIndex = 0, searchQuery = [], replaceQuery = [],
        cursorPosition = \<lparr>line = 0, char = 1\<rparr>,
        history = [''x'', ''zx''], historyIndex = 1, notification = None\<rparr>
   \<and> keyDown \<lparr>openedFiles = [\<lparr>name = ''a.txt'', content = ''y''\<rparr>],
        currentFileIndex = 0, searchQuery = [], replaceQuery = [],
        cursorPosition = \<lparr>line = 0, char = 1\<rparr>,
        history = [''x'', ''zx''], historyIndex = 1, notification = None\<rparr> undoKey
     = Inr \<lparr>openedFiles = [\<lparr>name = ''a.txt'', content = ''x''\<rparr>],
        currentFileIndex = 0, searchQuery = [], replaceQuery = [],
        cursorPosition = \<lparr>line = 0, char = 1\<rparr>,
        history = [''x'', ''zx''], historyIndex = 0, notification = None\<rparr>
   \<and> setCurrentFileIndex 0 (readerOnload_App 1 \<lparr>name = ''b.txt'', content = ''y''\<rparr>
        (loadDocument_App \<lparr>name = ''a.txt'', content = ''x''\<rparr>))
     = \<lparr>openedFiles = [\<lparr>name = ''a.txt'', content = ''x''\<rparr>, \<lparr>name = ''b.txt'', content = ''y''\<rparr>],
        currentFileIndex = 0, searchQuery = [], replaceQuery = [],
        cursorPosition = \<lparr>line = 0, char = 0\<rparr>,
        history = [''y''], historyIndex = 0, notification = None\<rparr>"
  by (simp add: handler_defs document_defs)

subsection \<open>Search\<close>

declare line_matches.simps [simp del] match_global.simps [simp del]
  literal_scan.simps [simp del] literal_replace.simps [simp del]

lemma syntaxCharacter_backslash: "syntaxCharacter backslash"
  and syntaxCharacter_dot: "syntaxCharacter (CHR ''.'')"
  by (simp_all add: syntaxCharacter_def)

lemma compile_plain:
  "\<not> syntaxCharacter c \<Longrightarrow> compile (c # rest) = map_sum id ((#) (Lit c)) (compile rest)"
  using syntaxCharacter_backslash syntaxCharacter_dot by (cases rest) auto

lemma compile_escaped:
  "syntaxCharacter c \<Longrightarrow> compile (backslash # c # rest) = map_sum id ((#) (Lit c)) (compile rest)"
  by simp

lemma compile_escapeRegExp: "compile (escapeRegExp q) = Inr (map Lit q)"
proof (induction q)
  case Nil
  then show ?case by (simp add: escapeRegExp_def)
next
  case (Cons c q)
  have "escapeRegExp (c # q) = (if syntaxCharacter c then [backslash, c] else [c]) @ escapeRegExp q"
    by (simp add: escapeRegExp_def)
  then show ?case using Cons by (simp add: compile_plain compile_escaped del: compile.simps)
qed

lemma match_here_length: "match_here rx str \<Longrightarrow> length rx \<le> length str"
  by (induction rx str rule: match_here.induct) auto

lemma match_here_Lit: "match_here (map Lit q) str \<longleftrightarrow> ci_prefix q str"
proof (induction q arbitrary: str)
  case Nil
  then show ?case by (simp add: ci_prefix_def)
next
  case (Cons c q)
  then show ?case by (cases str) (auto simp: ci_prefix_def)
qed

lemma first_match_bound: "first_match rx str = Some k \<Longrightarrow> k + length rx \<le> length str"
proof (induction str arbitrary: k)
  case Nil
  then show ?case by (auto dest: match_here_length split: if_splits)
next
  case (Cons d ds)
  then show ?case by (auto dest: match_here_length split: if_splits)
qed

lemma scan_no_match:
  "first_match (map Lit q) str = None \<Longrightarrow> literal_scan q str = []"
proof (induction str)
  case Nil
  then show ?case by (subst literal_scan.simps) (auto simp: match_here_Lit split: if_splits)
next
  case (Cons d ds)
  then show ?case
    by (subst literal_scan.simps) (auto simp: match_here_Lit split: if_splits)
qed

lemma scan_first_match:
  "first_match (map Lit q) str = Some k \<Longrightarrow> q \<noteq> [] \<Longrightarrow>
   literal_scan q str = k # map (\<lambda>i. k + length q + i) (literal_scan q (drop (k + length q) str))"
proof (induction str arbitrary: k)
  case Nil
  then show ?case by (cases q) (auto split: if_splits)
next
  case (Cons d ds)
  show ?case
  proof (cases "match_here (map Lit q) (d # ds)")
    case True
    then have k: "k = 0" using Cons.prems by simp
    have "ci_prefix q (d # ds)" using True by (simp add: match_here_Lit)
    then show ?thesis unfolding k using Cons.prems(2)
      by (subst literal_scan.simps) (auto simp: ci_prefix_def)
  next
    case False
    then obtain k' where k': "first_match (map Lit q) ds = Some k'" "k = Suc k'"
      using Cons.prems by auto
    have len: "k' + length q \<le> length ds" using first_match_bound [OF k'(1)] by simp
    have "literal_scan q (d # ds) = map Suc (literal_scan q ds)"
      using False len Cons.prems(2) by (subst literal_scan.simps) (auto simp: match_here_Lit)
    then show ?thesis using Cons.IH [OF k'(1) Cons.prems(2)] k'(2) by simp
  qed
qed


lemma regexp_exec_Lit:
  "i \<le> length str \<Longrightarrow>
   regexp_exec (map Lit q) str i
     = map_option (\<lambda>k. (i + k, i + k + length q)) (first_match (map Lit q) (drop i str))"
  by (simp add: regexp_exec_def)

lemma line_matches_scan:
  "q \<noteq> [] \<Longrightarrow> i \<le> length ln \<Longrightarrow>
   line_matches (map Lit q) ln li i
     = map (\<lambda>k. \<lparr>span_line = li, span_start = i + k, span_end = i + k + length q\<rparr>)
         (literal_scan q (drop i ln))"
proof (induction "Suc (length ln) - i" arbitrary: i rule: less_induct)
  case less
  show ?case
  proof (cases "first_match (map Lit q) (drop i ln)")
    case None
    then show ?thesis
      using less.prems by (subst line_matches.simps) (simp add: regexp_exec_Lit scan_no_match)
  next
    case (Some k)
    have bound: "i + k + length q \<le> length ln"
      using first_match_bound [OF Some] less.prems by simp
    have pos: "0 < length q" using less.prems by simp
    have IH: "line_matches (map Lit q) ln li (i + k + length q)
        = map (\<lambda>j. \<lparr>span_line = li, span_start = i + k + length q + j,
                     span_end = i + k + length q + j + length q\<rparr>)
            (literal_scan q (drop (i + k + length q) ln))"
      by (rule less.hyps [OF _ less.prems(1) bound]) (use bound pos in linarith)
    have "line_matches (map Lit q) ln li i
        = \<lparr>span_line = li, span_start = i + k, span_end = i + k + length q\<rparr>
            # line_matches (map Lit q) ln li (i + k + length q)"
      using less.prems Some pos by (subst line_matches.simps) (simp add: regexp_exec_Lit)
    then show ?thesis
      using IH scan_first_match [OF Some less.prems(1)]
      by (simp add: o_def add.assoc add.commute add.left_commute)
  qed
qed

lemma match_global_scan:
  "q \<noteq> [] \<Longrightarrow> i \<le> length str \<Longrightarrow>
   match_global (map Lit q) str i
     = map (\<lambda>k. (i + k, i + k + length q)) (literal_scan q (drop i str))"
proof (induction "Suc (length str) - i" arbitrary: i rule: less_induct)
  case less
  show ?case
  proof (cases "first_match (map Lit q) (drop i str)")
    case None
    then show ?thesis
      using less.prems by (subst match_global.simps) (simp add: regexp_exec_Lit scan_no_match)
  next
    case (Some k)
    have bound: "i + k + length q \<le> length str"
      using first_match_bound [OF Some] less.prems by simp
    have pos: "0 < length q" using less.prems by simp
    have IH: "match_global (map Lit q) str (i + k + length q)
        = map (\<lambda>j. (i + k + length q + j, i + k + length q + j + length q))
            (literal_scan q (drop (i + k + length q) str))"
      by (rule less.hyps [OF _ less.prems(1) bound]) (use bound pos in linarith)
    have "match_global (map Lit q) str i
        = (i + k, i + k + length q) # match_global (map Lit q) str (i + k + length q)"
      using less.prems Some pos by (subst match_global.simps) (simp add: regexp_exec_Lit)
    then show ?thesis
      using IH scan_first_match [OF Some less.prems(1)]
      by (simp add: o_def add.assoc add.commute add.left_commute)
  qed
qed

lemma searchEffect_spec:
  assumes "q \<noteq> []"
  shows "searchEffect q (Some f) = spec_find q (split_newline (content f))"
proof -
  have "line_matches (map Lit q) ln li 0
      = map (\<lambda>k. \<lparr>span_line = li, span_start = k, span_end = k + length q\<rparr>) (literal_scan q ln)"
    for ln li using line_matches_scan [OF assms, of 0 ln li] by simp
  then show ?thesis
    using assms by (simp add: searchEffect_def searchWith_def compile_escapeRegExp spec_find_def)
qed


lemma literal_scan_occurs:
  "k \<in> set (literal_scan q str) \<Longrightarrow> ci_prefix q (drop k str)"
proof (induction q str arbitrary: k rule: literal_scan.induct)
  case (1 q str)
  show ?case
  proof (cases "q = [] \<or> length str < length q")
    case True
    then show ?thesis using "1.prems" by (subst (asm) literal_scan.simps) simp
  next
    case False
    show ?thesis
    proof (cases "ci_prefix q str")
      case True
      then have "k = 0 \<or> (\<exists>j \<in> set (literal_scan q (drop (length q) str)). k = length q + j)"
        using "1.prems" False by (subst (asm) literal_scan.simps) auto
      then show ?thesis
        using "1.IH"(1) [OF False True] True by (auto simp: add.commute)
    next
      case nopre: False
      then obtain j where j: "j \<in> set (literal_scan q (tl str))" "k = Suc j"
        using "1.prems" False by (subst (asm) literal_scan.simps) auto
      have "str \<noteq> []" using False by auto
      then show ?thesis
        using "1.IH"(2) [OF False nopre j(1)] j(2) by (cases str) auto
    qed
  qed
qed

lemma literal_scan_sorted:
  "sorted_wrt (\<lambda>a b. a + length q \<le> b) (literal_scan q str)"
proof (induction q str rule: literal_scan.induct)
  case (1 q str)
  show ?case
  proof (cases "q = [] \<or> length str < length q")
    case True
    then show ?thesis by (subst literal_scan.simps) simp
  next
    case False
    show ?thesis
    proof (cases "ci_prefix q str")
      case True
      then show ?thesis
        using "1.IH"(1) [OF False True] False
        by (subst literal_scan.simps) (simp add: sorted_wrt_map)
    next
      case nopre: False
      then show ?thesis
        using "1.IH"(2) [OF False nopre] False
        by (subst literal_scan.simps) (simp add: sorted_wrt_map)
    qed
  qed
qed

lemma spec_find_from_member:
  assumes "sp \<in> set (concat (map (\<lambda>(i, ln). map (\<lambda>k. \<lparr>span_line = i, span_start = k, span_end = k + length q\<rparr>)
                               (literal_scan q ln)) (enumerate n lines)))"
  shows "n \<le> span_line sp \<and> span_line sp < n + length lines
       \<and> span_end sp = span_start sp + length q
       \<and> ci_prefix q (drop (span_start sp) (lines ! (span_line sp - n)))"
  using assms
proof (induction lines arbitrary: n)
  case Nil
  then show ?case by simp
next
  case (Cons l ls)
  then consider (here) k where "k \<in> set (literal_scan q l)"
      "sp = \<lparr>span_line = n, span_start = k, span_end = k + length q\<rparr>"
    | (later) "sp \<in> set (concat (map (\<lambda>(i, ln). map (\<lambda>k. \<lparr>span_line = i, span_start = k, span_end = k + length q\<rparr>)
                               (literal_scan q ln)) (enumerate (Suc n) ls)))"
    by auto
  then show ?case
  proof cases
    case here
    then show ?thesis using literal_scan_occurs by simp
  next
    case later
    from Cons.IH [OF later] show ?thesis by (auto simp: Suc_diff_le)
  qed
qed

lemma spec_find_from_sorted:
  "sorted_wrt span_before
     (concat (map (\<lambda>(i, ln). map (\<lambda>k. \<lparr>span_line = i, span_start = k, span_end = k + length q\<rparr>)
                               (literal_scan q ln)) (enumerate n lines)))"
proof (induction lines arbitrary: n)
  case Nil
  then show ?case by simp
next
  case (Cons l ls)
  have here: "sorted_wrt span_before
      (map (\<lambda>k. \<lparr>span_line = n, span_start = k, span_end = k + length q\<rparr>) (literal_scan q l))"
    using literal_scan_sorted [of q l]
    by (simp add: sorted_wrt_map span_before_def)
  have cross: "span_before a b"
    if "a \<in> set (map (\<lambda>k. \<lparr>span_line = n, span_start = k, span_end = k + length q\<rparr>) (literal_scan q l))"
      and "b \<in> set (concat (map (\<lambda>(i, ln). map (\<lambda>k. \<lparr>span_line = i, span_start = k, span_end = k + length q\<rparr>)
                               (literal_scan q ln)) (enumerate (Suc n) ls)))" for a b
    using that(1) spec_find_from_member [OF that(2)] by (auto simp: span_before_def)
  show ?case using here Cons.IH [of "Suc n"] cross by (simp add: sorted_wrt_append)
qed


text \<open>
  C6. For every document and every query that is not empty, the search returns, line by line,
  the occurrences of the query as a literal text up to the case of letters, found from left
  to right without overlap (\<open>spec_find\<close>); the spans are ordered by line and position and do
  not overlap; each span lies on a line of the document, ends its query's length after its
  start, and the line reads the query there. For the line \<open>abcabc\<close> and the query \<open>abc\<close>
  the spans are (0,0,3) and (0,3,6); the query \<open>a.b\<close> matches the text \<open>a.b\<close> of the line
  \<open>axb a.b\<close> and not its text \<open>axb\<close>.
\<close>

theorem search_finds_literal_occurrences:
  assumes "query \<noteq> []"
  shows "searchEffect query (Some f) = spec_find query (split_newline (content f))
       \<and> sorted_wrt span_before (searchEffect query (Some f))
       \<and> (\<forall>sp \<in> set (searchEffect query (Some f)).
             span_line sp < length (split_newline (content f))
           \<and> span_end sp = span_start sp + length query
           \<and> ci_prefix query (drop (span_start sp) (split_newline (content f) ! span_line sp)))
       \<and> searchEffect ''abc'' (Some \<lparr>name = nm, content = ''abcabc''\<rparr>)
           = [\<lparr>span_line = 0, span_start = 0, span_end = 3\<rparr>,
              \<lparr>span_line = 0, span_start = 3, span_end = 6\<rparr>]
       \<and> searchEffect ''a.b'' (Some \<lparr>name = nm, content = ''axb a.b''\<rparr>)
           = [\<lparr>span_line = 0, span_start = 4, span_end = 7\<rparr>]"
proof -
  note eq = searchEffect_spec [OF assms, of f]
  have srt: "sorted_wrt span_before (searchEffect query (Some f))"
    unfolding eq spec_find_def by (rule spec_find_from_sorted)
  have mem: "span_line sp < length (split_newline (content f))
           \<and> span_end sp = span_start sp + length query
           \<and> ci_prefix query (drop (span_start sp) (split_newline (content f) ! span_line sp))"
    if "sp \<in> set (searchEffect query (Some f))" for sp
    using that spec_find_from_member [of sp query 0 "split_newline (content f)"]
    unfolding eq spec_find_def by simp
  have ex1: "searchEffect ''abc'' (Some \<lparr>name = nm, content = ''abcabc''\<rparr>)
           = [\<lparr>span_line = 0, span_start = 0, span_end = 3\<rparr>,
              \<lparr>span_line = 0, span_start = 3, span_end = 6\<rparr>]"
    by (simp add: searchEffect_def searchWith_def escapeRegExp_def syntaxCharacter_def
          regexp_exec_def canonicalize_def lower_letters_def upper_letters_def enumerate_eq_zip line_matches.simps)
  have ex2: "searchEffect ''a.b'' (Some \<lparr>name = nm, content = ''axb a.b''\<rparr>)
           = [\<lparr>span_line = 0, span_start = 4, span_end = 7\<rparr>]"
    by (simp add: searchEffect_def searchWith_def escapeRegExp_def syntaxCharacter_def
          regexp_exec_def canonicalize_def lower_letters_def upper_letters_def enumerate_eq_zip line_matches.simps)
  show ?thesis using eq srt mem ex1 ex2 by blast
qed



theorem search_finds_literal_occurrences_witness:
  "''aB'' \<noteq> []
   \<and> searchEffect ''aB'' (Some \<lparr>name = ''note.txt'', content = ''xab'' @ [LF] @ ''AB''\<rparr>)
        = spec_find ''aB'' [''xab'', ''AB'']
   \<and> spec_find ''aB'' [''xab'', ''AB'']
        = [\<lparr>span_line = 0, span_start = 1, span_end = 3\<rparr>,
           \<lparr>span_line = 1, span_start = 0, span_end = 2\<rparr>]"
proof -
  have ne: "''aB'' \<noteq> []" by simp
  have "spec_find ''aB'' [''xab'', ''AB'']
        = [\<lparr>span_line = 0, span_start = 1, span_end = 3\<rparr>,
           \<lparr>span_line = 1, span_start = 0, span_end = 2\<rparr>]"
    by (simp add: spec_find_def enumerate_eq_zip literal_scan.simps ci_prefix_def canonicalize_def lower_letters_def upper_letters_def)
  then show ?thesis
    using search_finds_literal_occurrences [OF ne, of "\<lparr>name = ''note.txt'', content = ''xab'' @ [LF] @ ''AB''\<rparr>"]
    by simp
qed

text \<open>
  The folding reaches the letters of the Latin-1 supplement: the query U+00E0 is found at the
  letters U+00C0 and U+00E0, and the division sign U+00F7 only at itself, not at the
  multiplication sign U+00D7.
\<close>

lemma search_folds_latin1:
  "searchEffect [CHR 0xE0] (Some \<lparr>name = nm, content = [CHR 0xC0, CHR ''x'', CHR 0xE0]\<rparr>)
     = [\<lparr>span_line = 0, span_start = 0, span_end = 1\<rparr>,
        \<lparr>span_line = 0, span_start = 2, span_end = 3\<rparr>]
   \<and> searchEffect [CHR 0xF7] (Some \<lparr>name = nm, content = [CHR 0xD7, CHR 0xF7]\<rparr>)
     = [\<lparr>span_line = 0, span_start = 1, span_end = 2\<rparr>]"
  by (simp add: searchEffect_def searchWith_def escapeRegExp_def syntaxCharacter_def
        regexp_exec_def canonicalize_def lower_letters_def upper_letters_def enumerate_eq_zip
        line_matches.simps)

text \<open>
  C10. The search with the empty query returns no span. Whenever the compilation of the
  pattern source throws a \<^verbatim>\<open>SyntaxError\<close>, the search returns no span; it is a total
  function and raises nothing. The source that the editor compiles, the escaped query, always
  compiles.
\<close>

theorem search_fails_to_empty:
  "searchEffect [] cf = []
   \<and> (\<forall>source text. compile source = Inl SyntaxError \<longrightarrow> searchWith source text = [])
   \<and> (\<forall>query. compile (escapeRegExp query) = Inr (map Lit query))"
  by (auto simp: searchEffect_def searchWith_def compile_escapeRegExp split: option.splits)

theorem search_fails_to_empty_witness:
  "compile [backslash] = Inl SyntaxError \<and> searchWith [backslash] ''a'' = []"
proof -
  have c: "compile [backslash] = Inl SyntaxError" by simp
  have "\<forall>source text. compile source = Inl SyntaxError \<longrightarrow> searchWith source text = []"
    using search_fails_to_empty [of None] by blast
  then show ?thesis using c by blast
qed

subsection \<open>Replace all\<close>

lemma canonicalize_LF: "canonicalize c = canonicalize LF \<longleftrightarrow> c = LF"
proof -
  have LF: "canonicalize LF = LF"
    by (simp add: canonicalize_def lower_letters_def upper_letters_def)
  have "c = LF" if "canonicalize c = LF"
  proof (cases "map_of (zip lower_letters upper_letters) c")
    case None
    then show ?thesis using that by (simp add: canonicalize_def)
  next
    case (Some u)
    then have "(c, u) \<in> set (zip lower_letters upper_letters)"
      by (rule map_of_SomeD)
    then have "u \<in> set upper_letters"
      by (rule set_zip_rightD)
    moreover have "u = LF" using that Some by (simp add: canonicalize_def)
    ultimately show ?thesis by (simp add: upper_letters_def)
  qed
  then show ?thesis using LF by auto
qed

lemma ci_prefix_nth:
  assumes "ci_prefix q str" "i < length q"
  shows "canonicalize (str ! i) = canonicalize (q ! i)"
proof -
  have len: "length q \<le> length str"
    and eq: "map canonicalize (take (length q) str) = map canonicalize q"
    using assms(1) by (simp_all add: ci_prefix_def)
  have "canonicalize (str ! i) = map canonicalize (take (length q) str) ! i"
    using assms(2) len by simp
  also have "\<dots> = map canonicalize q ! i" by (simp only: eq)
  also have "\<dots> = canonicalize (q ! i)" using assms(2) by simp
  finally show ?thesis .
qed

lemma ci_prefix_no_LF:
  assumes "LF \<notin> set q" "ci_prefix q str" "i < length q"
  shows "str ! i \<noteq> LF"
proof
  assume "str ! i = LF"
  then have "canonicalize (q ! i) = canonicalize LF"
    using ci_prefix_nth [OF assms(2,3)] by simp
  then have "q ! i = LF" by (simp add: canonicalize_LF)
  then show False using assms(1,3) by (metis nth_mem)
qed

lemma ci_prefix_append:
  "length q \<le> length l \<Longrightarrow> ci_prefix q (l @ rest) \<longleftrightarrow> ci_prefix q l"
  by (simp add: ci_prefix_def)

lemma ci_prefix_across:
  assumes "LF \<notin> set q" "length l < length q"
  shows "\<not> ci_prefix q (l @ LF # rest)"
proof
  assume "ci_prefix q (l @ LF # rest)"
  from ci_prefix_no_LF [OF assms(1) this assms(2)] show False by (simp add: nth_append)
qed

lemma scan_short_line:
  assumes "LF \<notin> set q" "q \<noteq> []" "length l < length q"
  shows "length (literal_scan q (l @ LF # rest)) = length (literal_scan q rest)"
  using assms(3)
proof (induction l)
  case Nil
  show ?case
  proof (cases "length (LF # rest) < length q")
    case True
    then show ?thesis
      by (subst literal_scan.simps, subst (2) literal_scan.simps) simp
  next
    case False
    then show ?thesis
      using ci_prefix_across [OF assms(1), of "[]" rest] assms(2)
      by (subst literal_scan.simps) simp
  qed
next
  case (Cons c l)
  then have IH: "length (literal_scan q (l @ LF # rest)) = length (literal_scan q rest)" by simp
  show ?case
  proof (cases "length ((c # l) @ LF # rest) < length q")
    case True
    then show ?thesis
      by (subst literal_scan.simps, subst (2) literal_scan.simps) simp
  next
    case False
    then show ?thesis
      using ci_prefix_across [OF assms(1) Cons.prems, of rest] assms(2) IH
      by (subst literal_scan.simps) simp
  qed
qed

lemma scan_line_then_rest:
  assumes "LF \<notin> set q" "q \<noteq> []"
  shows "length (literal_scan q (l @ LF # rest))
           = length (literal_scan q l) + length (literal_scan q rest)"
proof (induction "length l" arbitrary: l rule: less_induct)
  case less
  show ?case
  proof (cases "length l < length q")
    case True
    then show ?thesis
      using scan_short_line [OF assms True, of rest] by (subst (2) literal_scan.simps) simp
  next
    case False
    have long: "\<not> length (l @ LF # rest) < length q" using False by simp
    have pos: "0 < length q" using assms(2) by simp
    show ?thesis
    proof (cases "ci_prefix q l")
      case True
      then have pre: "ci_prefix q (l @ LF # rest)" using False by (simp add: ci_prefix_append)
      have "length (drop (length q) l) < length l" using False assms(2) by (cases q) auto
      from less.hyps [OF this] show ?thesis
        using True pre long False assms(2)
        by (subst literal_scan.simps, subst (2) literal_scan.simps) simp
    next
      case nopre: False
      then have npre: "\<not> ci_prefix q (l @ LF # rest)" using False by (simp add: ci_prefix_append)
      have ne: "l \<noteq> []" using False assms(2) by auto
      then have "length (tl l) < length l" by simp
      from less.hyps [OF this] show ?thesis
        using nopre npre ne long False assms(2)
        by (subst literal_scan.simps, subst (2) literal_scan.simps) simp
    qed
  qed
qed


lemma scan_join_newline:
  assumes "LF \<notin> set q" "q \<noteq> []"
  shows "length (literal_scan q (join_newline ls)) = sum_list (map (\<lambda>l. length (literal_scan q l)) ls)"
proof (induction ls rule: join_newline.induct)
  case 1
  then show ?case using assms(2) by (subst literal_scan.simps) simp
next
  case (2 l)
  then show ?case by simp
next
  case (3 l m ls)
  then show ?case using scan_line_then_rest [OF assms] by simp
qed

lemma length_spec_find_from:
  "length (concat (map (\<lambda>(i, ln). map (\<lambda>k. \<lparr>span_line = i, span_start = k, span_end = k + length q\<rparr>)
                               (literal_scan q ln)) (enumerate n lines)))
     = sum_list (map (\<lambda>l. length (literal_scan q l)) lines)"
  by (induction lines arbitrary: n) simp_all

lemma search_count_eq_match_count:
  assumes "LF \<notin> set q" "q \<noteq> []"
  shows "length (searchEffect q (Some f)) = length (match_global (map Lit q) (content f) 0)"
proof -
  have "length (match_global (map Lit q) (content f) 0) = length (literal_scan q (content f))"
    using match_global_scan [OF assms(2), of 0 "content f"] by simp
  also have "\<dots> = length (literal_scan q (join_newline (split_newline (content f))))"
    by (simp add: join_split_newline)
  also have "\<dots> = sum_list (map (\<lambda>l. length (literal_scan q l)) (split_newline (content f)))"
    by (rule scan_join_newline [OF assms])
  also have "\<dots> = length (searchEffect q (Some f))"
    unfolding searchEffect_spec [OF assms(2)] spec_find_def by (rule length_spec_find_from [symmetric])
  finally show ?thesis by simp
qed

lemma GetSubstitution_verbatim:
  "\<not> dollar_pattern r \<Longrightarrow> GetSubstitution m b a r = r"
  by (induction m b a r rule: GetSubstitution.induct) auto

lemma replace_no_match:
  "first_match (map Lit q) str = None \<Longrightarrow> literal_replace q r str = str"
proof (induction str)
  case Nil
  then show ?case by (subst literal_replace.simps) (auto simp: match_here_Lit split: if_splits)
next
  case (Cons d ds)
  then show ?case
    by (subst literal_replace.simps) (auto simp: match_here_Lit split: if_splits)
qed

lemma replace_first_match:
  "first_match (map Lit q) str = Some k \<Longrightarrow> q \<noteq> [] \<Longrightarrow>
   literal_replace q r str = take k str @ r @ literal_replace q r (drop (k + length q) str)"
proof (induction str arbitrary: k)
  case Nil
  then show ?case by (cases q) (auto split: if_splits)
next
  case (Cons d ds)
  show ?case
  proof (cases "match_here (map Lit q) (d # ds)")
    case True
    then have k: "k = 0" using Cons.prems by simp
    have "ci_prefix q (d # ds)" using True by (simp add: match_here_Lit)
    then show ?thesis unfolding k using Cons.prems(2)
      by (subst literal_replace.simps) (auto simp: ci_prefix_def)
  next
    case False
    then obtain k' where k': "first_match (map Lit q) ds = Some k'" "k = Suc k'"
      using Cons.prems by auto
    have len: "k' + length q \<le> length ds" using first_match_bound [OF k'(1)] by simp
    have "literal_replace q r (d # ds) = d # literal_replace q r ds"
      using False len Cons.prems(2) by (subst literal_replace.simps) (auto simp: match_here_Lit)
    then show ?thesis using Cons.IH [OF k'(1) Cons.prems(2)] k'(2) by simp
  qed
qed

lemma replace_results_literal:
  assumes q: "q \<noteq> []" and r: "\<not> dollar_pattern r"
  shows "i \<le> length str \<Longrightarrow>
    replace_results str r i (match_global (map Lit q) str i) = literal_replace q r (drop i str)"
proof (induction "Suc (length str) - i" arbitrary: i rule: less_induct)
  case less
  show ?case
  proof (cases "first_match (map Lit q) (drop i str)")
    case None
    then show ?thesis
      using less.prems by (subst match_global.simps) (simp add: regexp_exec_Lit replace_no_match)
  next
    case (Some k)
    have bound: "i + k + length q \<le> length str"
      using first_match_bound [OF Some] less.prems by simp
    have pos: "0 < length q" using q by simp
    have IH: "replace_results str r (i + k + length q) (match_global (map Lit q) str (i + k + length q))
        = literal_replace q r (drop (i + k + length q) str)"
      by (rule less.hyps [OF _ bound]) (use bound pos in linarith)
    have "match_global (map Lit q) str i
        = (i + k, i + k + length q) # match_global (map Lit q) str (i + k + length q)"
      using less.prems Some pos by (subst match_global.simps) (simp add: regexp_exec_Lit)
    then show ?thesis
      using IH replace_first_match [OF Some q, of r] r
      by (simp add: GetSubstitution_verbatim add.assoc add.commute add.left_commute)
  qed
qed

lemma js_replace_literal:
  "q \<noteq> [] \<Longrightarrow> \<not> dollar_pattern r \<Longrightarrow> js_replace (map Lit q) str r = literal_replace q r str"
  using replace_results_literal [of q r 0 str] by (simp add: js_replace_def)


lemma scan_empty_replace_id:
  assumes "q \<noteq> []" "literal_scan q str = []"
  shows "literal_replace q r str = str"
proof (cases "first_match (map Lit q) str")
  case None
  then show ?thesis by (rule replace_no_match)
next
  case (Some k)
  then show ?thesis using scan_first_match [OF Some assms(1)] assms(2) by simp
qed


lemmas replace_defs =
  replace_state_def handleReplaceAll_def escapeRegExp_def syntaxCharacter_def
  match_global.simps regexp_exec_def canonicalize_def lower_letters_def upper_letters_def js_replace_def
  searchEffect_def searchWith_def line_matches.simps enumerate_eq_zip

text \<open>
  C9. The search query is the value of a single-line text input, the only writer of
  \<^verbatim>\<open>searchQuery\<close>, and so holds no line feed. For every document and every such query,
  the number of spans the search returns is the number of matches that replace-all counts in
  the content, and whenever replace-all reports a count, it reports that number: with a query
  that is not empty it reports "no matches" exactly when the search returns no span, and when
  there are matches and the substitution changes the content it commits the new content and
  reports the number of spans. With the empty query, and when the substitution leaves the
  content as it is, replace-all changes and reports nothing.
\<close>

theorem search_count_agrees_with_replace_count:
  assumes lf: "LF \<notin> set (searchQuery s)" and f: "currentFile s = Some f"
  shows "(searchQuery s = [] \<longrightarrow> searchEffect (searchQuery s) (Some f) = [] \<and> handleReplaceAll s = s)
       \<and> (searchQuery s \<noteq> [] \<longrightarrow>
            length (searchEffect (searchQuery s) (Some f))
              = length (match_global (map Lit (searchQuery s)) (content f) 0)
          \<and> (searchEffect (searchQuery s) (Some f) = [] \<longrightarrow>
                handleReplaceAll s = s\<lparr>notification := Some NoMatchesInfo\<rparr>)
          \<and> (searchEffect (searchQuery s) (Some f) \<noteq> []
               \<and> js_replace (map Lit (searchQuery s)) (content f) (replaceQuery s) \<noteq> content f \<longrightarrow>
                handleReplaceAll s
                  = (updateContentAndHistory
                       (js_replace (map Lit (searchQuery s)) (content f) (replaceQuery s)) True s)
                    \<lparr>notification := Some (ReplacedSuccess (length (searchEffect (searchQuery s) (Some f))))\<rparr>)
          \<and> (searchEffect (searchQuery s) (Some f) \<noteq> []
               \<and> js_replace (map Lit (searchQuery s)) (content f) (replaceQuery s) = content f \<longrightarrow>
                handleReplaceAll s = s))"
proof (cases "searchQuery s = []")
  case True
  then show ?thesis using f by (simp add: searchEffect_def handleReplaceAll_def)
next
  case False
  note n = search_count_eq_match_count [OF lf False, of f]
  then have e: "searchEffect (searchQuery s) (Some f) = []
      \<longleftrightarrow> match_global (map Lit (searchQuery s)) (content f) 0 = []"
    by (metis length_0_conv)
  show ?thesis
    using False f n e by (simp add: handleReplaceAll_def compile_escapeRegExp Let_def)
qed


theorem search_count_agrees_with_replace_count_witness:
  "LF \<notin> set (searchQuery (replace_state (''ab'' @ [LF] @ ''AB'') ''ab'' ''x''))
   \<and> currentFile (replace_state (''ab'' @ [LF] @ ''AB'') ''ab'' ''x'')
        = Some \<lparr>name = ''note.txt'', content = ''ab'' @ [LF] @ ''AB''\<rparr>
   \<and> searchEffect ''ab'' (Some \<lparr>name = ''note.txt'', content = ''ab'' @ [LF] @ ''AB''\<rparr>)
        = [\<lparr>span_line = 0, span_start = 0, span_end = 2\<rparr>,
           \<lparr>span_line = 1, span_start = 0, span_end = 2\<rparr>]
   \<and> length (match_global (map Lit ''ab'') (''ab'' @ [LF] @ ''AB'') 0) = 2
   \<and> handleReplaceAll (replace_state (''ab'' @ [LF] @ ''AB'') ''ab'' ''x'')
        = (doc_state (''x'' @ [LF] @ ''x'') origin [''ab'' @ [LF] @ ''AB'', ''x'' @ [LF] @ ''x''] 1)
            \<lparr>searchQuery := ''ab'', replaceQuery := ''x'',
             notification := Some (ReplacedSuccess 2)\<rparr>"
proof -
  have lf: "LF \<notin> set (searchQuery (replace_state (''ab'' @ [LF] @ ''AB'') ''ab'' ''x''))"
    by (simp add: replace_state_def doc_state_def)
  have f: "currentFile (replace_state (''ab'' @ [LF] @ ''AB'') ''ab'' ''x'')
        = Some \<lparr>name = ''note.txt'', content = ''ab'' @ [LF] @ ''AB''\<rparr>"
    by (simp add: replace_state_def handler_defs)
  show ?thesis
    using search_count_agrees_with_replace_count [OF lf f]
    by (simp add: replace_defs handler_defs)
qed

text \<open>
  Why the query must hold no line feed: the search looks at each line on its own, replace-all
  at the whole content. A query of one line feed, which the search field cannot hold, would be
  found nowhere and replaced once.
\<close>

lemma line_feed_query_counts_differ:
  "searchEffect [LF] (currentFile (replace_state (''a'' @ [LF] @ ''b'') [LF] ''x'')) = []
   \<and> handleReplaceAll (replace_state (''a'' @ [LF] @ ''b'') [LF] ''x'')
       = (doc_state ''axb'' origin [''a'' @ [LF] @ ''b'', ''axb''] 1)
               \<lparr>searchQuery := [LF], replaceQuery := ''x'',
                notification := Some (ReplacedSuccess 1)\<rparr>"
  by (simp add: replace_defs handler_defs)

text \<open>
  C5 as the code has it. With a query that is not empty and a replacement that holds no
  substitution pattern (no dollar sign followed by a dollar sign, an ampersand, a backtick or
  an apostrophe), replace-all counts the occurrences of the query as a literal text up to the
  case of letters, from left to right without overlap, in the original content. When there is
  none, the content stays as it is and the outcome is the notice "no matches". Otherwise every
  occurrence is replaced by the replacement as it is written; when that changes the content,
  the new content is committed and the success notice carries the count; when it does not,
  nothing is changed and nothing is reported. The document \<open>foo bar foo\<close> with the query
  \<open>foo\<close> and the replacement \<open>baz\<close> becomes \<open>baz bar baz\<close> with the count 2.
\<close>

theorem replace_all_literal:
  assumes q: "searchQuery s \<noteq> []" and r: "\<not> dollar_pattern (replaceQuery s)"
    and f: "currentFile s = Some f"
  shows "handleReplaceAll s =
           (if literal_scan (searchQuery s) (content f) = [] then s\<lparr>notification := Some NoMatchesInfo\<rparr>
            else if literal_replace (searchQuery s) (replaceQuery s) (content f) \<noteq> content f
              then (updateContentAndHistory
                     (literal_replace (searchQuery s) (replaceQuery s) (content f)) True s)
                   \<lparr>notification := Some (ReplacedSuccess (length (literal_scan (searchQuery s) (content f))))\<rparr>
            else s)
       \<and> (literal_scan (searchQuery s) (content f) = [] \<longrightarrow>
            literal_replace (searchQuery s) (replaceQuery s) (content f) = content f)
       \<and> handleReplaceAll (replace_state ''foo bar foo'' ''foo'' ''baz'')
           = (doc_state ''baz bar baz'' origin [''foo bar foo'', ''baz bar baz''] 1)
               \<lparr>searchQuery := ''foo'', replaceQuery := ''baz'',
                notification := Some (ReplacedSuccess 2)\<rparr>"
proof -
  have m: "match_global (map Lit (searchQuery s)) (content f) 0
      = map (\<lambda>k. (k, k + length (searchQuery s))) (literal_scan (searchQuery s) (content f))"
    using match_global_scan [OF q, of 0 "content f"] by simp
  have main: "handleReplaceAll s =
           (if literal_scan (searchQuery s) (content f) = [] then s\<lparr>notification := Some NoMatchesInfo\<rparr>
            else if literal_replace (searchQuery s) (replaceQuery s) (content f) \<noteq> content f
              then (updateContentAndHistory
                     (literal_replace (searchQuery s) (replaceQuery s) (content f)) True s)
                   \<lparr>notification := Some (ReplacedSuccess (length (literal_scan (searchQuery s) (content f))))\<rparr>
            else s)"
    using q f by (simp add: handleReplaceAll_def compile_escapeRegExp Let_def m js_replace_literal [OF q r])
  have ex: "handleReplaceAll (replace_state ''foo bar foo'' ''foo'' ''baz'')
           = (doc_state ''baz bar baz'' origin [''foo bar foo'', ''baz bar baz''] 1)
               \<lparr>searchQuery := ''foo'', replaceQuery := ''baz'',
                notification := Some (ReplacedSuccess 2)\<rparr>"
    by (simp add: replace_defs handler_defs)
  show ?thesis using main ex scan_empty_replace_id [OF q] by simp
qed

theorem replace_all_literal_witness:
  "searchQuery (replace_state ''Foo x'' ''foo'' ''US$ 5'') \<noteq> []
   \<and> \<not> dollar_pattern (replaceQuery (replace_state ''Foo x'' ''foo'' ''US$ 5''))
   \<and> currentFile (replace_state ''Foo x'' ''foo'' ''US$ 5'')
        = Some \<lparr>name = ''note.txt'', content = ''Foo x''\<rparr>
   \<and> literal_scan ''foo'' ''Foo x'' = [0]
   \<and> literal_replace ''foo'' ''US$ 5'' ''Foo x'' = ''US$ 5 x''
   \<and> handleReplaceAll (replace_state ''Foo x'' ''foo'' ''US$ 5'')
        = (doc_state ''US$ 5 x'' origin [''Foo x'', ''US$ 5 x''] 1)
            \<lparr>searchQuery := ''foo'', replaceQuery := ''US$ 5'',
             notification := Some (ReplacedSuccess 1)\<rparr>"
proof -
  have q: "searchQuery (replace_state ''Foo x'' ''foo'' ''US$ 5'') \<noteq> []"
    and r: "\<not> dollar_pattern (replaceQuery (replace_state ''Foo x'' ''foo'' ''US$ 5''))"
    by (simp_all add: replace_state_def doc_state_def)
  have f: "currentFile (replace_state ''Foo x'' ''foo'' ''US$ 5'')
             = Some \<lparr>name = ''note.txt'', content = ''Foo x''\<rparr>"
    by (simp add: replace_state_def handler_defs)
  show ?thesis
    using replace_all_literal [OF q r f]
    by (simp add: replace_defs handler_defs literal_scan.simps literal_replace.simps ci_prefix_def)
qed

text \<open>
  The folding reaches the letters of the Latin-1 supplement: the query U+00E0 is found in,
  and replaced in, the document U+00C0; the division sign U+00F7 is not the multiplication
  sign U+00D7.
\<close>

lemma replace_all_folds_latin1:
  "handleReplaceAll (replace_state [CHR 0xC0] [CHR 0xE0] ''a'')
     = (doc_state ''a'' origin [[CHR 0xC0], ''a''] 1)
         \<lparr>searchQuery := [CHR 0xE0], replaceQuery := ''a'',
          notification := Some (ReplacedSuccess 1)\<rparr>
   \<and> handleReplaceAll (replace_state [CHR 0xD7] [CHR 0xF7] ''a'')
     = (replace_state [CHR 0xD7] [CHR 0xF7] ''a'')\<lparr>notification := Some NoMatchesInfo\<rparr>"
  by (simp add: replace_defs handler_defs)

text \<open>
  C5 as it is stated fails in two ways. The query \<open>foo\<close> has one match in the document
  \<open>foo\<close>; with the replacement \<open>foo\<close> the new content equals the old one and the handler
  reports no count at all. And a replacement is not always inserted as it is written: in the
  document \<open>xfoo y\<close> the match \<open>foo\<close> is replaced by one dollar sign for the replacement of
  two dollar signs, by \<open>[foo]\<close> for a dollar sign and an ampersand in brackets, by \<open>[x]\<close>
  for a dollar sign and a backtick in brackets, and by \<open>[ y]\<close> for a dollar sign and an
  apostrophe in brackets.
\<close>

theorem replace_all_counterexample:
  "length (match_global (map Lit ''foo'') ''foo'' 0) = 1
   \<and> notification (replace_state ''foo'' ''foo'' ''foo'') = None
   \<and> handleReplaceAll (replace_state ''foo'' ''foo'' ''foo'') = replace_state ''foo'' ''foo'' ''foo''
   \<and> map content (openedFiles (handleReplaceAll (replace_state ''xfoo y'' ''foo'' [dollar, dollar])))
       = [''x'' @ [dollar] @ '' y'']
   \<and> map content (openedFiles (handleReplaceAll (replace_state ''xfoo y'' ''foo'' ''[$&]'')))
       = [''x[foo] y'']
   \<and> map content (openedFiles (handleReplaceAll
         (replace_state ''xfoo y'' ''foo'' (''['' @ [dollar, CHR 0x60] @ '']''))))
       = [''x[x] y'']
   \<and> map content (openedFiles (handleReplaceAll
         (replace_state ''xfoo y'' ''foo'' (''['' @ [dollar, CHR 0x27] @ '']''))))
       = [''x[ y] y'']"
  by (simp add: replace_defs handler_defs)

end
